theory Spec2Isabelle
  imports Main "HOL-Library.Multiset"
begin

section \<open>Python strings and errors\<close>

text \<open>
  A Python \<open>str\<close> is a sequence of Unicode code points, and \<open>len\<close> counts code points.
  A character is modelled by its code point (\<open>ord\<close>), a string by the list of them.
  \<open>ustr\<close> turns an ASCII literal of the theory into such a string.  The backslash (92),
  the double quote (34) and the single quote (39) are written as numbers.
\<close>

type_synonym pychar = nat
type_synonym pystr = "nat list"

definition ustr :: "string \<Rightarrow> pystr" where
  "ustr s = map of_char s"

text \<open>
  \<open>main\<close> has no \<open>try\<close>: an exception raised while a line is processed ends the run.
  The exceptions that the loop body can raise are the values of \<open>error\<close>.
\<close>

datatype error =
    ValueError       \<comment> \<open>\<open>binascii.unhexlify\<close> on a \<open>str\<close> with a non-ASCII character\<close>
  | BinasciiError    \<comment> \<open>\<open>binascii.Error\<close>: odd length or a non-hexadecimal digit\<close>
  | AttributeError   \<comment> \<open>\<open>line_re.match(l)\<close> returned \<open>None\<close>\<close>
  | KeyError         \<comment> \<open>\<open>word2category[m[0]]\<close> on a missing key\<close>

section \<open>Encoding recovery (source lines 175 to 178)\<close>

text \<open>
  \<open>binascii.unhexlify\<close> is library code.  Given a \<open>str\<close> it first requires ASCII
  (\<open>ValueError\<close> otherwise), then an even length, then decodes the digits pairwise, the
  first digit of a pair being the high nibble; a character that is no hexadecimal digit
  raises \<open>binascii.Error\<close>.  Both letter cases are digits.
\<close>

definition hexval :: "pychar \<Rightarrow> nat option" where
  "hexval c =
     (if 48 \<le> c \<and> c \<le> 57 then Some (c - 48)
      else if 97 \<le> c \<and> c \<le> 102 then Some (c - 87)
      else if 65 \<le> c \<and> c \<le> 70 then Some (c - 55)
      else None)"

fun unhex_pairs :: "pystr \<Rightarrow> error + nat list" where
  "unhex_pairs [] = Inr []"
| "unhex_pairs [a] = Inl BinasciiError"
| "unhex_pairs (a # b # cs) =
     (case hexval a of
        None \<Rightarrow> Inl BinasciiError
      | Some hi \<Rightarrow>
          (case hexval b of
             None \<Rightarrow> Inl BinasciiError
           | Some lo \<Rightarrow>
               (case unhex_pairs cs of
                  Inl e \<Rightarrow> Inl e
                | Inr bs \<Rightarrow> Inr ((16 * hi + lo) # bs))))"

definition unhexlify :: "pystr \<Rightarrow> error + nat list" where
  "unhexlify s =
     (if list_ex (\<lambda>c. 128 \<le> c) s then Inl ValueError
      else if odd (length s) then Inl BinasciiError
      else unhex_pairs s)"

text \<open>\<open>bytes.decode("latin1")\<close>: the byte \<open>b\<close> becomes the character with code point \<open>b\<close>.\<close>

definition decode_latin1 :: "nat list \<Rightarrow> pystr" where
  "decode_latin1 bs = bs"

text \<open>
  \<^verbatim>\<open>if p.startswith("$HEX[") and p[-1] == "]":
      p = binascii.unhexlify(p[5:-1]).decode("latin1")\<close>

  The slice \<open>p[5:-1]\<close> drops the last character and then the first five.
\<close>

definition startswith :: "pystr \<Rightarrow> pystr \<Rightarrow> bool" where
  "startswith p pre = (take (length pre) p = pre)"

definition is_hex_wrapped :: "pystr \<Rightarrow> bool" where
  "is_hex_wrapped p = (startswith p (ustr ''$HEX['') \<and> p \<noteq> [] \<and> last p = 93)"

definition recover :: "pystr \<Rightarrow> error + pystr" where
  "recover p =
     (if is_hex_wrapped p
      then (case unhexlify (drop 5 (butlast p)) of
              Inl e \<Rightarrow> Inl e
            | Inr bs \<Rightarrow> Inr (decode_latin1 bs))
      else Inr p)"

section \<open>Line splitting (source line 153)\<close>

text \<open>
  \<^verbatim>\<open>lines = f.read().splitlines()\<close>

  \<open>str.splitlines\<close> is library code.  It ends a line at each of the line boundaries of
  Unicode, reads a carriage return followed by a line feed as one boundary, and adds no
  empty last line after a final boundary.  A file is modelled by the text that
  \<open>f.read()\<close> returns.
\<close>

definition is_linebreak :: "pychar \<Rightarrow> bool" where
  "is_linebreak c = (c \<in> set [10, 11, 12, 13, 28, 29, 30, 133, 8232, 8233])"

fun splitlines_from :: "pystr \<Rightarrow> pystr \<Rightarrow> pystr list" where
  "splitlines_from cur [] = (if cur = [] then [] else [cur])"
| "splitlines_from cur [c] =
     (if is_linebreak c then [cur] else [cur @ [c]])"
| "splitlines_from cur (c # d # cs) =
     (if c = 13 \<and> d = 10 then cur # splitlines_from [] cs
      else if is_linebreak c then cur # splitlines_from [] (d # cs)
      else splitlines_from (cur @ [c]) (d # cs))"

definition splitlines :: "pystr \<Rightarrow> pystr list" where
  "splitlines s = splitlines_from [] s"

section \<open>The symbol set and the translation table (source lines 14 and 62 to 64)\<close>

text \<open>
  \<^verbatim>\<open>SYMBOLS = "~`!@#$%^&*()_\-+=}\]{[|\\\"':;?/>.<, "\<close>

  The literal is an ordinary (not raw) string literal.  \<open>SYMBOLS_literal\<close> is its text
  between the quotes, character by character; \<open>py_unescape\<close> is what Python's escape
  processing makes of it: \<open>\\\<close>, \<open>\"\<close> and \<open>\'\<close> become the second character, and a
  backslash before a character that starts no escape sequence stays, with the character.
  The escape sequences with a meaning of their own (\<open>\n\<close>, \<open>\x41\<close>, ...) are left as they
  are by this function; none occurs in the literals of this program.
\<close>

definition SYMBOLS_literal :: pystr where
  "SYMBOLS_literal =
     ustr ''~`!@#$%^&*()_'' @ [92] @ ustr ''-+=}'' @ [92] @ ustr '']{[|''
     @ [92, 92, 92, 34, 39] @ ustr '':;?/>.<, ''"

fun py_unescape :: "pystr \<Rightarrow> pystr" where
  "py_unescape [] = []"
| "py_unescape [c] = [c]"
| "py_unescape (c # d # cs) =
     (if c = 92 \<and> (d = 92 \<or> d = 34 \<or> d = 39) then d # py_unescape cs
      else c # py_unescape (d # cs))"

definition SYMBOLS :: pystr where
  "SYMBOLS = py_unescape SYMBOLS_literal"

text \<open>
  \<^verbatim>\<open>tr_from = f'abcdefghijklmnopqrstuvwxyzABCDEFGHIJKLMNOPQRSTUVWXYZ0123456789{SYMBOLS}'
tr_to   =  'aaaaaaaaaaaaaaaaaaaaaaaaaaAAAAAAAAAAAAAAAAAAAAAAAAAA1111111111'.ljust(len(tr_from), '@')
trans = str.maketrans(tr_from, tr_to)\<close>

  \<open>str.maketrans\<close> of two strings of equal length builds a dictionary from the code points
  of the first to those of the second, a later pair replacing an earlier one with the same
  key.  \<open>str.translate\<close> replaces every character that is a key of the table by its value
  and leaves every other character as it is.
\<close>

definition tr_from :: pystr where
  "tr_from = ustr ''abcdefghijklmnopqrstuvwxyzABCDEFGHIJKLMNOPQRSTUVWXYZ0123456789'' @ SYMBOLS"

definition ljust :: "pystr \<Rightarrow> nat \<Rightarrow> pychar \<Rightarrow> pystr" where
  "ljust s width fillchar = s @ replicate (width - length s) fillchar"

definition tr_to :: pystr where
  "tr_to =
     ljust (ustr ''aaaaaaaaaaaaaaaaaaaaaaaaaaAAAAAAAAAAAAAAAAAAAAAAAAAA1111111111'')
       (length tr_from) 64"

definition maketrans :: "pystr \<Rightarrow> pystr \<Rightarrow> (pychar \<rightharpoonup> pychar)" where
  "maketrans x y = fold (\<lambda>(k, v) m. m(k \<mapsto> v)) (zip x y) Map.empty"

definition trans_table :: "pychar \<rightharpoonup> pychar" where
  "trans_table = maketrans tr_from tr_to"

definition translate :: "(pychar \<rightharpoonup> pychar) \<Rightarrow> pystr \<Rightarrow> pystr" where
  "translate table p = map (\<lambda>c. case table c of None \<Rightarrow> c | Some d \<Rightarrow> d) p"

section \<open>Regular expressions\<close>

text \<open>
  The program uses Python's \<open>re\<close>, a backtracking matcher.  The patterns of the program
  are written in the syntax tree \<open>re\<close> below; \<open>rmatch\<close> gives, for a pattern and a position
  in the subject, every way the pattern can match there, in the order in which the
  backtracking matcher tries them, so that the first element is the match that Python
  reports.  A matcher state is the position, the rest of the subject from there, and the
  text of group 1 when it has been set.

  The members of a character set \<open>[...]\<close> are read from its text by \<open>parse_set\<close>, which
  follows the set loop of Python's pattern parser: a backslash and the next character are
  one item (\<open>\d\<close> the digits, \<open>\\\<close> a backslash, a backslash before any character that is
  neither an ASCII letter nor a digit that character itself), \<open>x-y\<close> is a range, and an
  unescaped \<open>]\<close> after at least one item ends the set.  The other escapes of a letter or a
  digit are not modelled and give \<open>None\<close>, as the parser's errors do; the program uses none.
\<close>

datatype citem = CLit pychar | CRange pychar pychar | CDigit

definition is_ascii_alnum :: "pychar \<Rightarrow> bool" where
  "is_ascii_alnum c = ((48 \<le> c \<and> c \<le> 57) \<or> (65 \<le> c \<and> c \<le> 90) \<or> (97 \<le> c \<and> c \<le> 122))"

fun class_code :: "pystr \<Rightarrow> (citem \<times> pystr) option" where
  "class_code [] = None"
| "class_code [c] = (if c = 92 then None else Some (CLit c, []))"
| "class_code (c # e # cs) =
     (if c = 92
      then (if e = 100 then Some (CDigit, cs)
            else if is_ascii_alnum e then None
            else Some (CLit e, cs))
      else Some (CLit c, e # cs))"

lemma class_code_shorter: "class_code s = Some (it, r) \<Longrightarrow> length r < length s"
  by (induction s rule: class_code.induct) (auto split: if_splits)

function parse_set :: "citem list \<Rightarrow> pystr \<Rightarrow> (citem list \<times> pystr) option" where
  "parse_set acc s =
     (case s of
        [] \<Rightarrow> None
      | c # cs \<Rightarrow>
          if c = 93 \<and> acc \<noteq> [] then Some (acc, cs)
          else (case class_code s of
                  None \<Rightarrow> None
                | Some (code1, rest) \<Rightarrow>
                    (case rest of
                       [] \<Rightarrow> parse_set (acc @ [code1]) rest
                     | m # rest2 \<Rightarrow>
                         if m \<noteq> 45 then parse_set (acc @ [code1]) rest
                         else (case rest2 of
                                 [] \<Rightarrow> None
                               | t # rest3 \<Rightarrow>
                                   if t = 93 then Some (acc @ [code1, CLit 45], rest3)
                                   else (case class_code rest2 of
                                           None \<Rightarrow> None
                                         | Some (code2, rest4) \<Rightarrow>
                                             (case (code1, code2) of
                                                (CLit lo, CLit hi) \<Rightarrow>
                                                  if hi < lo then None
                                                  else parse_set (acc @ [CRange lo hi]) rest4
                                              | _ \<Rightarrow> None))))))"
  by pat_completeness auto
termination
proof (relation "measure (\<lambda>(acc, s). length s)")
  show "wf (measure (\<lambda>(acc, s). length s))" by simp
next
  fix acc s c cs x code1 rest
  assume "s = c # cs" "class_code s = Some x" "(code1, rest) = x" "rest = []"
  then show "((acc @ [code1], rest), acc, s) \<in> measure (\<lambda>(acc, s). length s)" by simp
next
  fix acc s c cs x code1 rest m rest2
  assume "class_code s = Some x" "(code1, rest) = x"
  then have "class_code s = Some (code1, rest)" by simp
  then show "((acc @ [code1], rest), acc, s) \<in> measure (\<lambda>(acc, s). length s)"
    by (simp add: class_code_shorter)
next
  fix acc s c cs x code1 rest m rest2 t rest3 y code2 rest4 lo hi
  assume "class_code s = Some x" "(code1, rest) = x" "rest = m # rest2"
    "class_code rest2 = Some y" "(code2, rest4) = y"
  then have "length rest < length s" "length rest4 < length rest2" "length rest2 < length rest"
    using class_code_shorter [of s code1 rest] class_code_shorter [of rest2 code2 rest4]
    by auto
  then show "((acc @ [CRange lo hi], rest4), acc, s) \<in> measure (\<lambda>(acc, s). length s)"
    by simp
qed

declare parse_set.simps [simp del]

text \<open>
  The members of the set whose text (without the opening bracket) is \<open>body\<close> followed by
  the closing bracket.  \<open>class_has\<close> decides whether a character is in a set; the decimal
  digits of Unicode, which \<open>\d\<close> matches in a \<open>str\<close> pattern, are the parameter \<open>nd\<close>.
\<close>

definition cls :: "pystr \<Rightarrow> citem list" where
  "cls body = (case parse_set [] (body @ [93]) of Some (items, []) \<Rightarrow> items | _ \<Rightarrow> [])"

fun item_has :: "(pychar \<Rightarrow> bool) \<Rightarrow> citem \<Rightarrow> pychar \<Rightarrow> bool" where
  "item_has nd (CLit x) c = (c = x)"
| "item_has nd (CRange lo hi) c = (lo \<le> c \<and> c \<le> hi)"
| "item_has nd CDigit c = nd c"

definition class_has :: "(pychar \<Rightarrow> bool) \<Rightarrow> citem list \<Rightarrow> pychar \<Rightarrow> bool" where
  "class_has nd items c = list_ex (\<lambda>it. item_has nd it c) items"

datatype atom =
    AAny                     \<comment> \<open>\<open>.\<close>: every character but the line feed\<close>
  | ACh pychar               \<comment> \<open>a literal character\<close>
  | AIn bool "citem list"    \<comment> \<open>a set, negated (\<open>[^...]\<close>) when the flag is set\<close>

fun atom_ok :: "(pychar \<Rightarrow> bool) \<Rightarrow> atom \<Rightarrow> pychar \<Rightarrow> bool" where
  "atom_ok nd AAny c = (c \<noteq> 10)"
| "atom_ok nd (ACh x) c = (c = x)"
| "atom_ok nd (AIn negate items) c = (class_has nd items c \<noteq> negate)"

datatype re =
    REps
  | RAtom atom
  | RStar atom        \<comment> \<open>\<open>a*\<close>, greedy\<close>
  | RPlus atom        \<comment> \<open>\<open>a+\<close>, greedy\<close>
  | RLazy atom    \<comment> \<open>\<open>a*?\<close>\<close>
  | RSeq re re
  | ROpt re           \<comment> \<open>\<open>(?:r)?\<close>, greedy\<close>
  | RLook re          \<comment> \<open>\<open>(?=r)\<close>\<close>
  | RGroup re         \<comment> \<open>\<open>(r)\<close>, group 1\<close>
  | RBol              \<comment> \<open>\<open>^\<close>\<close>
  | REol              \<comment> \<open>\<open>$\<close>: at the end, or before a line feed that ends the subject\<close>

type_synonym mstate = "nat \<times> pystr \<times> pystr option"

fun greedy_run :: "(pychar \<Rightarrow> bool) \<Rightarrow> atom \<Rightarrow> mstate \<Rightarrow> mstate list" where
  "greedy_run nd a (i, [], g) = [(i, [], g)]"
| "greedy_run nd a (i, c # cs, g) =
     (if atom_ok nd a c then greedy_run nd a (Suc i, cs, g) else []) @ [(i, c # cs, g)]"

fun lazy_run :: "(pychar \<Rightarrow> bool) \<Rightarrow> atom \<Rightarrow> mstate \<Rightarrow> mstate list" where
  "lazy_run nd a (i, [], g) = [(i, [], g)]"
| "lazy_run nd a (i, c # cs, g) =
     (i, c # cs, g) # (if atom_ok nd a c then lazy_run nd a (Suc i, cs, g) else [])"

fun rmatch :: "(pychar \<Rightarrow> bool) \<Rightarrow> re \<Rightarrow> mstate \<Rightarrow> mstate list" where
  "rmatch nd REps st = [st]"
| "rmatch nd (RAtom a) (i, s, g) =
     (case s of [] \<Rightarrow> [] | c # cs \<Rightarrow> if atom_ok nd a c then [(Suc i, cs, g)] else [])"
| "rmatch nd (RStar a) st = greedy_run nd a st"
| "rmatch nd (RPlus a) (i, s, g) =
     (case s of
        [] \<Rightarrow> []
      | c # cs \<Rightarrow> if atom_ok nd a c then greedy_run nd a (Suc i, cs, g) else [])"
| "rmatch nd (RLazy a) st = lazy_run nd a st"
| "rmatch nd (RSeq r1 r2) st = concat (map (rmatch nd r2) (rmatch nd r1 st))"
| "rmatch nd (ROpt r) st = rmatch nd r st @ [st]"
| "rmatch nd (RLook r) st = (if rmatch nd r st = [] then [] else [st])"
| "rmatch nd (RGroup r) (i, s, g) =
     map (\<lambda>(j, s', g'). (j, s', Some (take (j - i) s))) (rmatch nd r (i, s, g))"
| "rmatch nd RBol (i, s, g) = (if i = 0 then [(i, s, g)] else [])"
| "rmatch nd REol (i, s, g) = (if s = [] \<or> s = [10] then [(i, s, g)] else [])"

text \<open>
  \<open>pattern.match(s)\<close> matches at the start of \<open>s\<close> only and returns \<open>None\<close> or a match;
  \<open>re_match\<close> returns the match's group 1.  \<open>pattern.search(s)\<close> tries every start.
\<close>

definition re_match :: "(pychar \<Rightarrow> bool) \<Rightarrow> re \<Rightarrow> pystr \<Rightarrow> pystr option option" where
  "re_match nd r s = (case rmatch nd r (0, s, None) of [] \<Rightarrow> None | (j, s', g) # _ \<Rightarrow> Some g)"

definition re_search :: "(pychar \<Rightarrow> bool) \<Rightarrow> re \<Rightarrow> pystr \<Rightarrow> bool" where
  "re_search nd r s = list_ex (\<lambda>i. rmatch nd r (i, drop i s, None) \<noteq> []) [0..<Suc (length s)]"

fun re_seq :: "re list \<Rightarrow> re" where
  "re_seq [] = REps"
| "re_seq [r] = r"
| "re_seq (r # rs) = RSeq r (re_seq rs)"

definition re_lit :: "string \<Rightarrow> re" where
  "re_lit s = re_seq (map (\<lambda>c. RAtom (ACh (of_char c))) s)"

text \<open>
  \<^verbatim>\<open>line_re = re.compile("(?:.*?:)?(?:.*?:)?(.*)$", re.UNICODE)\<close>
\<close>

definition line_re :: re where
  "line_re =
     re_seq [ROpt (RSeq (RLazy AAny) (RAtom (ACh 58))),
          ROpt (RSeq (RLazy AAny) (RAtom (ACh 58))),
          RGroup (RStar AAny),
          REol]"

text \<open>
  \<^verbatim>\<open>stats_regex = { "Contains: 123": f"123", ... }
stats = {k: re.compile(v, re.UNICODE) for (k, v) in stats_regex.items()}\<close>

  The table of the taxonomy rules, in the order of the source.  A set is given by its
  text, with \<open>SYMBOLS\<close> put in where the f-string has \<open>{SYMBOLS}\<close>; \<open>bs_d\<close> is the text
  \<open>\d\<close>, and \<open>digit\<close> is \<open>\d\<close> outside a set.
\<close>

definition bs_d :: pystr where
  "bs_d = [92, 100]"

definition set_of :: "pystr \<Rightarrow> atom" where
  "set_of body = AIn False (cls body)"

definition not_set_of :: "pystr \<Rightarrow> atom" where
  "not_set_of body = AIn True (cls body)"

definition digit :: atom where
  "digit = AIn False [CDigit]"

definition ahead :: "atom \<Rightarrow> re" where
  "ahead a = RLook (RSeq (RStar AAny) (RAtom a))"

definition stats_regex :: "(string \<times> re) list" where
  "stats_regex =
   [(''Contains: 123'', re_lit ''123''),
    (''Contains: 1234'', re_lit ''1234''),
    (''Contains: space'', re_lit '' ''),
    (''Has: All lowercase'', re_seq [RBol, RPlus (set_of (ustr ''a-z'')), REol]),
    (''Has: All num'', re_seq [RBol, RPlus (set_of bs_d), REol]),
    (''Has: All uppercase'', re_seq [RBol, RPlus (set_of (ustr ''A-Z'')), REol]),
    (''Has: First capital, last number'',
       re_seq [RBol, RAtom (set_of (ustr ''A-Z'')), RStar AAny, RAtom digit, REol]),
    (''Has: First capital, last symbol'',
       re_seq [RBol, RAtom (set_of (ustr ''A-Z'')), RStar AAny, RAtom (set_of SYMBOLS), REol]),
    (''Has: Four digits at the end'',
       re_seq [RAtom (not_set_of bs_d), RAtom digit, RAtom digit, RAtom digit, RAtom digit, REol]),
    (''Has: Single digit at the end'',
       re_seq [RAtom (not_set_of bs_d), RAtom digit, REol]),
    (''Has: Three digits at the end'',
       re_seq [RAtom (not_set_of bs_d), RAtom digit, RAtom digit, RAtom digit, REol]),
    (''Has: Two digits at the end'',
       re_seq [RAtom (not_set_of bs_d), RAtom digit, RAtom digit, REol]),
    (''Has: Upper + lower + num + symbol'',
       re_seq [RBol, ahead (set_of (ustr ''a-z'')), ahead (set_of (ustr ''A-Z'')), ahead digit,
               ahead (set_of SYMBOLS), RStar AAny, REol]),
    (''Has: Lower + num + symbol'',
       re_seq [RBol, ahead (set_of (ustr ''a-z'')), ahead digit, ahead (set_of SYMBOLS),
               RStar (set_of (ustr ''a-z'' @ bs_d @ SYMBOLS)), REol]),
    (''Has: Upper + num + symbol'',
       re_seq [RBol, ahead (set_of (ustr ''A-Z'')), ahead digit, ahead (set_of SYMBOLS),
               RStar (set_of (ustr ''A-Z'' @ bs_d @ SYMBOLS)), REol]),
    (''Has: Upper + lower + num'',
       re_seq [RBol, ahead (set_of (ustr ''a-z'')), ahead (set_of (ustr ''A-Z'')), ahead digit,
               RStar (set_of (ustr ''A-Za-z'' @ bs_d)), REol]),
    (''Has: Alpha + num'',
       re_seq [RBol, ahead (set_of (ustr ''a-zA-Z'')), ahead digit,
               RStar (set_of (ustr ''A-Za-z'' @ bs_d)), REol]),
    (''Has: Alpha + symbol'',
       re_seq [RBol, ahead (set_of (ustr ''a-zA-Z'')), ahead (set_of SYMBOLS),
               RStar (set_of (ustr ''A-Za-z'' @ SYMBOLS)), REol]),
    (''Has: Upper + lower + symbol'',
       re_seq [RBol, ahead (set_of (ustr ''a-z'')), ahead (set_of (ustr ''A-Z'')),
               ahead (set_of SYMBOLS), RStar (set_of (ustr ''A-Za-z'' @ SYMBOLS)), REol]),
    (''Has: Upper + lower'',
       re_seq [RBol, ahead (set_of (ustr ''a-z'')), ahead (set_of (ustr ''A-Z'')),
               RStar (set_of (ustr ''A-Za-z'')), REol]),
    (''Last digit is '' @ [CHR 0x27] @ ''0'' @ [CHR 0x27], re_seq [re_lit ''0'', REol]),
    (''Last digits are '' @ [CHR 0x27] @ ''020'' @ [CHR 0x27], re_seq [re_lit ''020'', REol]),
    (''Last digits are '' @ [CHR 0x27] @ ''19xx'' @ [CHR 0x27],
       re_seq [re_lit ''19'', RAtom digit, RAtom digit, REol]),
    (''Last digits are '' @ [CHR 0x27] @ ''20'' @ [CHR 0x27], re_seq [re_lit ''20'', REol]),
    (''Last digits are '' @ [CHR 0x27] @ ''2020'' @ [CHR 0x27], re_seq [re_lit ''2020'', REol]),
    (''Last digits are '' @ [CHR 0x27] @ ''20xx'' @ [CHR 0x27],
       re_seq [re_lit ''20'', RAtom digit, RAtom digit, REol]),
    (''Seq: 1 upper > lower > num or symbol'',
       re_seq [RBol, RAtom (set_of (ustr ''A-Z'')), RPlus (set_of (ustr ''a-z'')),
               RPlus (set_of (bs_d @ SYMBOLS)), REol]),
    (''Seq: 1 upper > lower > num'',
       re_seq [RBol, RAtom (set_of (ustr ''A-Z'')), RPlus (set_of (ustr ''a-z'')),
               RPlus (set_of bs_d), REol]),
    (''Seq: aplha > num > alpha'',
       re_seq [RBol, RPlus (set_of (ustr ''A-Za-z'')), RPlus digit,
               RPlus (set_of (ustr ''A-Za-z'')), REol]),
    (''Seq: aplha > num > symbol'',
       re_seq [RBol, RPlus (set_of (ustr ''A-Za-z'')), RPlus digit, RPlus (set_of SYMBOLS), REol]),
    (''Seq: aplha > num'',
       re_seq [RBol, RPlus (set_of (ustr ''A-Za-z'')), RPlus digit, REol]),
    (''Seq: aplha > symbol > num'',
       re_seq [RBol, RPlus (set_of (ustr ''A-Za-z'')), RPlus (set_of SYMBOLS), RPlus digit, REol])]"

section \<open>The run (source lines 119 to 246)\<close>

text \<open>
  The arguments of the run, the category dictionary that \<open>json.load\<close> returned, and the
  library functions whose tables are not part of the program: \<open>str.isnumeric\<close>,
  \<open>str.isalpha\<close>, the decimal digits that \<open>\d\<close> matches, and \<open>fuzzywuzzy.process.extract\<close>,
  which returns a list of pairs of a word and an integer score.  The dictionary is the
  list of its items, a category name with its list of words.  The flag \<open>verbose\<close> only
  prints; printing and the progress bar are left out.
\<close>

record env =
  freq :: bool
  no_categories :: bool
  categories :: "(pystr \<times> pystr list) list"
  isnumeric :: "pychar \<Rightarrow> bool"
  isalpha :: "pychar \<Rightarrow> bool"
  isdecimal :: "pychar \<Rightarrow> bool"
  process_extract :: "pystr \<Rightarrow> pystr list \<Rightarrow> (pystr \<times> int) list"

text \<open>
  The counters are \<open>collections.Counter\<close> objects that are only ever incremented: a
  counter is the multiset of its keys, \<open>count c k\<close> is \<open>c[k]\<close> (0 for a key never
  counted) and \<open>size c\<close> is the sum of all its counts.
\<close>

record state =
  cnt :: "pystr multiset"
  cnt_length :: "nat multiset"
  cnt_pwd :: "pystr multiset"
  cnt_root :: "pystr multiset"
  cnt_regex :: "string multiset"
  cnt_symbol :: "pychar multiset"
  cnt_alpha :: "pychar multiset"
  cnt_num :: "pychar multiset"
  cnt_totals :: "string multiset"
  cnt_pattern :: "pystr multiset"
  grand_total :: nat
  total_valid_passwords :: nat
  progress :: nat
  valid_passwords :: nat

definition initial :: state where
  "initial =
     \<lparr>cnt = {#}, cnt_length = {#}, cnt_pwd = {#}, cnt_root = {#}, cnt_regex = {#},
      cnt_symbol = {#}, cnt_alpha = {#}, cnt_num = {#}, cnt_totals = {#}, cnt_pattern = {#},
      grand_total = 0, total_valid_passwords = 0, progress = 0, valid_passwords = 0\<rparr>"

text \<open>
  \<^verbatim>\<open>words = set([x for y in categories.values() for x in y])
for w in words:
    cats = []
    for c, v in categories.items():
        if w in v:
            cats.append(c)
    word2category[w] = cats\<close>
\<close>

definition words :: "env \<Rightarrow> pystr list" where
  "words e = remdups (concat (map snd (categories e)))"

definition word2category :: "env \<Rightarrow> (pystr \<rightharpoonup> pystr list)" where
  "word2category e w =
     (if w \<in> set (words e)
      then Some (map fst (filter (\<lambda>(c, v). w \<in> set v) (categories e)))
      else None)"

text \<open>
  \<^verbatim>\<open>if args.freq:
    cnt_totals["chars"] += len(p)
    for letter in p:
        if letter.isnumeric():
            cnt_num[letter] += 1
            cnt_totals["num"] += 1
        elif letter.isalpha():
            cnt_alpha[letter] += 1
            cnt_totals["alpha"] += 1
        else:
            cnt_symbol[letter] += 1
            cnt_totals["symbol"] += 1\<close>
\<close>

definition count_letter :: "env \<Rightarrow> pychar \<Rightarrow> state \<Rightarrow> state" where
  "count_letter e letter st =
     (if isnumeric e letter
      then st\<lparr>cnt_num := add_mset letter (cnt_num st),
              cnt_totals := add_mset ''num'' (cnt_totals st)\<rparr>
      else if isalpha e letter
      then st\<lparr>cnt_alpha := add_mset letter (cnt_alpha st),
              cnt_totals := add_mset ''alpha'' (cnt_totals st)\<rparr>
      else st\<lparr>cnt_symbol := add_mset letter (cnt_symbol st),
              cnt_totals := add_mset ''symbol'' (cnt_totals st)\<rparr>)"

definition letter_frequency :: "env \<Rightarrow> pystr \<Rightarrow> state \<Rightarrow> state" where
  "letter_frequency e p st =
     (if freq e
      then fold (count_letter e) p
             (st\<lparr>cnt_totals := cnt_totals st + replicate_mset (length p) ''chars''\<rparr>)
      else st)"

text \<open>
  \<^verbatim>\<open>for cat, pat in stats.items():
    if pat.search(p):
        cnt_regex[cat] += 1\<close>
\<close>

definition matching_rules :: "env \<Rightarrow> pystr \<Rightarrow> string list" where
  "matching_rules e p =
     map fst (filter (\<lambda>(cat, pat). re_search (isdecimal e) pat p) stats_regex)"

text \<open>
  \<^verbatim>\<open>if len(p) > 3 and not args.no_categories and words:
    mall = process.extract(p, words)
    pw_categories = set()
    for m in mall:
        if m[1] > 80:
            cnt_root[m[0]] += 1
            pw_categories.update(word2category[m[0]])
    if not pw_categories:
        pw_categories = ['no_category']
    for pw_category in pw_categories:
        cnt[pw_category] += 1\<close>

  The set \<open>pw_categories\<close> is a list without repetitions; \<open>set.update\<close> inserts the
  elements that are not yet in it.
\<close>

definition set_update :: "pystr list \<Rightarrow> pystr list \<Rightarrow> pystr list" where
  "set_update s xs = fold List.insert xs s"

fun fuzzy_matches ::
  "(pystr \<rightharpoonup> pystr list) \<Rightarrow> (pystr \<times> int) list \<Rightarrow> pystr multiset \<times> pystr list
   \<Rightarrow> error + pystr multiset \<times> pystr list" where
  "fuzzy_matches w2c [] acc = Inr acc"
| "fuzzy_matches w2c (m # mall) (root, pw_categories) =
     (if snd m > 80
      then (case w2c (fst m) of
              None \<Rightarrow> Inl KeyError
            | Some cats \<Rightarrow>
                fuzzy_matches w2c mall (add_mset (fst m) root, set_update pw_categories cats))
      else fuzzy_matches w2c mall (root, pw_categories))"

definition no_category :: pystr where
  "no_category = ustr ''no_category''"

definition categorize :: "env \<Rightarrow> pystr \<Rightarrow> state \<Rightarrow> error + state" where
  "categorize e p st =
     (if length p > 3 \<and> \<not> no_categories e \<and> words e \<noteq> []
      then (case fuzzy_matches (word2category e) (process_extract e p (words e))
                   (cnt_root st, []) of
              Inl err \<Rightarrow> Inl err
            | Inr (root, pw_categories) \<Rightarrow>
                Inr (st\<lparr>cnt_root := root,
                        cnt := cnt st
                          + mset (if pw_categories = [] then [no_category]
                                  else pw_categories)\<rparr>))
      else Inr st)"

text \<open>
  The statistics of one password (source lines 180 to 235): length, value, letter
  frequency, shape pattern, taxonomy rules, categories.
\<close>

definition classify :: "env \<Rightarrow> pystr \<Rightarrow> state \<Rightarrow> error + state" where
  "classify e p st =
     (let st1 = st\<lparr>cnt_length := add_mset (length p) (cnt_length st)\<rparr>;
          st2 = st1\<lparr>cnt_pwd := add_mset p (cnt_pwd st1)\<rparr>;
          st3 = letter_frequency e p st2;
          st4 = st3\<lparr>cnt_pattern := add_mset (translate trans_table p) (cnt_pattern st3)\<rparr>;
          st5 = st4\<lparr>cnt_regex := cnt_regex st4 + mset (matching_rules e p)\<rparr>
      in categorize e p st5)"

text \<open>
  The body of the loop over the lines (source lines 160 to 243).

  \<^verbatim>\<open>progress += 1
p = line_re.match(l).group(1)
if not p:
    continue
valid_passwords += 1
if p.startswith("$HEX[") and p[-1] == "]":
    p = binascii.unhexlify(p[5:-1]).decode("latin1")\<close>
\<close>

definition loop_body :: "env \<Rightarrow> state \<Rightarrow> pystr \<Rightarrow> error + state" where
  "loop_body e st l =
     (case re_match (isdecimal e) line_re l of
        None \<Rightarrow> Inl AttributeError
      | Some None \<Rightarrow> Inr (st\<lparr>progress := Suc (progress st)\<rparr>)
      | Some (Some p) \<Rightarrow>
          if p = [] then Inr (st\<lparr>progress := Suc (progress st)\<rparr>)
          else (case recover p of
                  Inl err \<Rightarrow> Inl err
                | Inr p' \<Rightarrow>
                    classify e p'
                      (st\<lparr>progress := Suc (progress st),
                          valid_passwords := Suc (valid_passwords st)\<rparr>)))"

fun process_lines :: "env \<Rightarrow> state \<Rightarrow> pystr list \<Rightarrow> error + state" where
  "process_lines e st [] = Inr st"
| "process_lines e st (l # ls) =
     (case loop_body e st l of
        Inl err \<Rightarrow> Inl err
      | Inr st' \<Rightarrow> process_lines e st' ls)"

text \<open>
  One input file (source lines 153 to 246): \<open>file_loop\<close> is the code from line 155 on,
  given the list \<open>lines\<close>; \<open>process_file\<close> is given the text read from the file.

  \<^verbatim>\<open>total = len(lines)
progress = 0
valid_passwords = 0
for l in lines: ...
grand_total += total
total_valid_passwords += valid_passwords\<close>
\<close>

definition file_loop :: "env \<Rightarrow> state \<Rightarrow> pystr list \<Rightarrow> error + state" where
  "file_loop e st lines =
     (case process_lines e (st\<lparr>progress := 0, valid_passwords := 0\<rparr>) lines of
        Inl err \<Rightarrow> Inl err
      | Inr st' \<Rightarrow>
          Inr (st'\<lparr>grand_total := grand_total st' + length lines,
                   total_valid_passwords := total_valid_passwords st' + valid_passwords st'\<rparr>))"

definition process_file :: "env \<Rightarrow> state \<Rightarrow> pystr \<Rightarrow> error + state" where
  "process_file e st text = file_loop e st (splitlines text)"

fun process_files :: "env \<Rightarrow> state \<Rightarrow> pystr list \<Rightarrow> error + state" where
  "process_files e st [] = Inr st"
| "process_files e st (f # fs) =
     (case process_file e st f of
        Inl err \<Rightarrow> Inl err
      | Inr st' \<Rightarrow> process_files e st' fs)"

definition main :: "env \<Rightarrow> pystr list \<Rightarrow> error + state" where
  "main e input_files = process_files e initial input_files"

section \<open>The letter totals\<close>

text \<open>
  The statement that the per-character totals agree: the count of \<open>chars\<close> is the sum of
  the counts of \<open>num\<close>, \<open>alpha\<close> and \<open>symbol\<close> in \<open>cnt_totals\<close>.
\<close>

definition letter_totals_agree :: "state \<Rightarrow> bool" where
  "letter_totals_agree st =
     (count (cnt_totals st) ''chars''
      = count (cnt_totals st) ''num'' + count (cnt_totals st) ''alpha''
        + count (cnt_totals st) ''symbol'')"

text \<open>
  The statement of what the per-character counters hold.  The passwords counted so far
  are the keys of \<open>cnt_pwd\<close>, with their multiplicities; \<open>counted_chars\<close> is the multiset
  of all their characters when letter-frequency mode is on, and empty when it is off.
  \<open>letter_counts_exact\<close> says that \<open>cnt_num\<close> holds exactly the numeric characters among
  them, \<open>cnt_alpha\<close> exactly the alphabetic ones that are not numeric, \<open>cnt_symbol\<close>
  exactly the rest, each as often as it occurs, and that the four totals are the sizes of
  \<open>counted_chars\<close> and of the three counters.
\<close>

definition counted_chars :: "env \<Rightarrow> state \<Rightarrow> pychar multiset" where
  "counted_chars e st = (if freq e then sum_mset (image_mset mset (cnt_pwd st)) else {#})"

definition letter_counts_exact :: "env \<Rightarrow> state \<Rightarrow> bool" where
  "letter_counts_exact e st =
     (cnt_num st = filter_mset (isnumeric e) (counted_chars e st)
      \<and> cnt_alpha st = filter_mset (\<lambda>c. \<not> isnumeric e c \<and> isalpha e c) (counted_chars e st)
      \<and> cnt_symbol st
          = filter_mset (\<lambda>c. \<not> isnumeric e c \<and> \<not> isalpha e c) (counted_chars e st)
      \<and> count (cnt_totals st) ''chars'' = size (counted_chars e st)
      \<and> count (cnt_totals st) ''num'' = size (cnt_num st)
      \<and> count (cnt_totals st) ''alpha'' = size (cnt_alpha st)
      \<and> count (cnt_totals st) ''symbol'' = size (cnt_symbol st))"

section \<open>The category counts\<close>

text \<open>
  The statements about the category counters: \<open>long_counted\<close> says that the category
  counts add up to at least the number of counted passwords longer than three characters
  (the keys of \<open>cnt_length\<close> are the lengths of the counted passwords), and
  \<open>run_invariant\<close> adds that every valid password has been counted in \<open>cnt_length\<close> and
  that no category is counted when the categorization is off or the dictionary has no
  word.
\<close>

definition long_counted :: "state \<Rightarrow> bool" where
  "long_counted st = (size (filter_mset (\<lambda>n. 3 < n) (cnt_length st)) \<le> size (cnt st))"

definition run_invariant :: "env \<Rightarrow> state \<Rightarrow> bool" where
  "run_invariant e st =
     (size (cnt_length st) = total_valid_passwords st
      \<and> (if no_categories e \<or> words e = [] then cnt st = {#} else long_counted st))"

text \<open>
  The categories of one password as the specification words them: the categories of the
  words whose match has a score above 80, each category once, or the single label
  \<open>no_category\<close> when there is none; a password of three characters or less, and any
  password when the categorization is off or the dictionary has no word, has no label.
  \<open>categories_exact\<close> says that the category counter is the sum of these labels over the
  passwords counted so far.
\<close>

definition retained_categories :: "env \<Rightarrow> pystr \<Rightarrow> pystr list" where
  "retained_categories e p =
     concat (map (\<lambda>m. case word2category e (fst m) of None \<Rightarrow> [] | Some cs \<Rightarrow> cs)
               (filter (\<lambda>m. 80 < snd m) (process_extract e p (words e))))"

definition password_labels :: "env \<Rightarrow> pystr \<Rightarrow> pystr multiset" where
  "password_labels e p =
     (if retained_categories e p = [] then {#no_category#}
      else mset (remdups (retained_categories e p)))"

definition category_contribution :: "env \<Rightarrow> pystr \<Rightarrow> pystr multiset" where
  "category_contribution e p =
     (if 3 < length p \<and> \<not> no_categories e \<and> words e \<noteq> [] then password_labels e p else {#})"

definition categories_exact :: "env \<Rightarrow> state \<Rightarrow> bool" where
  "categories_exact e st =
     (cnt st = sum_mset (image_mset (category_contribution e) (cnt_pwd st)))"

section \<open>An environment for concrete runs\<close>

text \<open>
  The examples below run the program with letter frequencies and categories switched on,
  a dictionary of two categories that share a word, the ASCII digits and letters for the
  character tables, and a scorer that gives 100 to the word equal to the password and 0
  to every other word.
\<close>

definition ascii_digit :: "pychar \<Rightarrow> bool" where
  "ascii_digit c = (48 \<le> c \<and> c \<le> 57)"

definition ascii_letter :: "pychar \<Rightarrow> bool" where
  "ascii_letter c = ((65 \<le> c \<and> c \<le> 90) \<or> (97 \<le> c \<and> c \<le> 122))"

definition exact_extract :: "pystr \<Rightarrow> pystr list \<Rightarrow> (pystr \<times> int) list" where
  "exact_extract p ws = map (\<lambda>w. (w, if w = p then 100 else 0)) ws"

definition demo_env :: env where
  "demo_env =
     \<lparr>freq = True, no_categories = False,
      categories = [(ustr ''animals'', [ustr ''tiger'', ustr ''jaguar'']),
                    (ustr ''cars'', [ustr ''jaguar''])],
      isnumeric = ascii_digit, isalpha = ascii_letter, isdecimal = ascii_digit,
      process_extract = exact_extract\<rparr>"

section \<open>The line normalizer as the specification words it\<close>

text \<open>
  The specification describes the normalizer by what it removes: a leading prefix that
  ends at the first colon, at most twice.  \<open>spec_strip_prefix\<close> removes one such prefix
  when the text has a colon and returns the text whole when it has none; it is compared
  with \<open>line_re\<close> below and is not used by the model of the run.
\<close>

definition spec_strip_prefix :: "pystr \<Rightarrow> pystr" where
  "spec_strip_prefix s = (if 58 \<in> set s then tl (dropWhile (\<lambda>c. c \<noteq> 58) s) else s)"

section \<open>Properties of the encoding recovery\<close>

lemma ustr_HEX: "ustr ''$HEX['' = [36, 72, 69, 88, 91]"
  by (simp add: ustr_def)

lemma is_hex_wrapped_form: "is_hex_wrapped (ustr ''$HEX['' @ payload @ [93])"
  by (simp add: is_hex_wrapped_def startswith_def ustr_HEX)

lemma payload_of_form: "drop 5 (butlast (ustr ''$HEX['' @ payload @ [93])) = payload"
  by (simp add: ustr_HEX butlast_append)

lemma unhex_pairs_bad:
  "list_ex (\<lambda>c. hexval c = None) s \<Longrightarrow> unhex_pairs s = Inl BinasciiError"
proof (induction s rule: unhex_pairs.induct)
  case 1
  then show ?case by simp
next
  case (2 a)
  then show ?case by simp
next
  case (3 a b cs)
  show ?case
  proof (cases "hexval a")
    case None
    then show ?thesis by simp
  next
    case (Some hi)
    note ha = this
    show ?thesis
    proof (cases "hexval b")
      case None
      with ha show ?thesis by simp
    next
      case (Some lo)
      with ha "3.prems" have "list_ex (\<lambda>c. hexval c = None) cs" by simp
      with "3.IH" [OF ha Some] have "unhex_pairs cs = Inl BinasciiError" by simp
      with ha Some show ?thesis by simp
    qed
  qed
qed

lemma unhexlify_bad:
  assumes "odd (length s) \<or> list_ex (\<lambda>c. hexval c = None) s"
  shows "unhexlify s = Inl ValueError \<or> unhexlify s = Inl BinasciiError"
  using assms unhex_pairs_bad [of s] by (auto simp: unhexlify_def)

text \<open>
  Claim C8.  The candidate \<open>$HEX[70617373776F7264]\<close> is decoded to exactly \<open>password\<close>;
  the digits are read pairwise, each pair one single-byte character, and the lower-case
  spelling of the digit \<open>F\<close> gives the same result.
\<close>

theorem C8_hex_password:
  "recover (ustr ''$HEX[70617373776F7264]'') = Inr (ustr ''password'')
   \<and> recover (ustr ''$HEX[70617373776f7264]'') = Inr (ustr ''password'')"
  by (simp add: recover_def is_hex_wrapped_def startswith_def unhexlify_def
      decode_latin1_def hexval_def ustr_def)

section \<open>Properties of the pattern masker and of the symbol set\<close>

lemma fold_upd_map_of:
  "fold (\<lambda>(k, v) m. m(k \<mapsto> v)) kvs m = m ++ map_of (rev kvs)"
  by (induction kvs arbitrary: m) (auto simp: map_add_def fun_eq_iff split: option.splits)

lemma maketrans_map_of: "maketrans x y = map_of (rev (zip x y))"
  by (simp add: maketrans_def fold_upd_map_of)

lemma maketrans_None: "c \<notin> set x \<Longrightarrow> maketrans x y c = None"
  by (auto simp: maketrans_map_of map_of_eq_None_iff dest: set_zip_leftD)

lemma maketrans_range: "maketrans x y c = Some v \<Longrightarrow> v \<in> set y"
  by (auto simp: maketrans_map_of dest!: map_of_SomeD set_zip_rightD)

lemma maketrans_append:
  "length x1 = length y1 \<Longrightarrow>
   maketrans (x1 @ x2) (y1 @ y2) = maketrans x1 y1 ++ maketrans x2 y2"
  by (simp add: maketrans_map_of)

lemma maketrans_replicate:
  "length x \<le> n \<Longrightarrow> maketrans x (replicate n v) c = (if c \<in> set x then Some v else None)"
proof (cases "c \<in> set x")
  case False
  then show ?thesis by (simp add: maketrans_None)
next
  case True
  assume n: "length x \<le> n"
  from True n have "c \<in> fst ` set (rev (zip x (replicate n v)))"
    by (force simp: set_zip in_set_conv_nth)
  then have "map_of (rev (zip x (replicate n v))) c \<noteq> None"
    by (simp only: map_of_eq_None_iff not_not)
  then obtain w where w: "maketrans x (replicate n v) c = Some w"
    by (auto simp: maketrans_map_of)
  from maketrans_range [OF w] have "w = v" by (auto split: if_splits)
  with w True show ?thesis by simp
qed

lemma SYMBOLS_value:
  "SYMBOLS = [126, 96, 33, 64, 35, 36, 37, 94, 38, 42, 40, 41, 95, 92, 45, 43, 61, 125,
              92, 93, 123, 91, 124, 92, 34, 39, 58, 59, 63, 47, 62, 46, 60, 44, 32]"
  by (simp add: SYMBOLS_def SYMBOLS_literal_def ustr_def)

lemma cls_SYMBOLS:
  "cls SYMBOLS = [CLit 126, CLit 96, CLit 33, CLit 64, CLit 35, CLit 36, CLit 37, CLit 94,
    CLit 38, CLit 42, CLit 40, CLit 41, CLit 95, CLit 45, CLit 43, CLit 61,
    CLit 125, CLit 93, CLit 123, CLit 91, CLit 124, CLit 34, CLit 39,
    CLit 58, CLit 59, CLit 63, CLit 47, CLit 62, CLit 46, CLit 60, CLit 44,
    CLit 32]"
  by (simp add: cls_def SYMBOLS_value parse_set.simps is_ascii_alnum_def)

lemma trans_table_split:
  "trans_table =
     maketrans (ustr ''abcdefghijklmnopqrstuvwxyzABCDEFGHIJKLMNOPQRSTUVWXYZ0123456789'')
       (ustr ''aaaaaaaaaaaaaaaaaaaaaaaaaaAAAAAAAAAAAAAAAAAAAAAAAAAA1111111111'')
     ++ maketrans SYMBOLS (replicate (length SYMBOLS) 64)"
proof -
  have "length (ustr ''abcdefghijklmnopqrstuvwxyzABCDEFGHIJKLMNOPQRSTUVWXYZ0123456789'')
      = length (ustr ''aaaaaaaaaaaaaaaaaaaaaaaaaaAAAAAAAAAAAAAAAAAAAAAAAAAA1111111111'')"
    by (simp add: ustr_def)
  then show ?thesis
    unfolding trans_table_def tr_from_def tr_to_def ljust_def
    by (simp add: maketrans_append)
qed

lemma trans_table_at: "(trans_table c = Some 64) = (c \<in> set SYMBOLS)"
proof (cases "c \<in> set SYMBOLS")
  case True
  then show ?thesis by (simp add: trans_table_split map_add_def maketrans_replicate)
next
  case False
  have "maketrans (ustr ''abcdefghijklmnopqrstuvwxyzABCDEFGHIJKLMNOPQRSTUVWXYZ0123456789'')
          (ustr ''aaaaaaaaaaaaaaaaaaaaaaaaaaAAAAAAAAAAAAAAAAAAAAAAAAAA1111111111'') c \<noteq> Some 64"
  proof
    assume "maketrans (ustr ''abcdefghijklmnopqrstuvwxyzABCDEFGHIJKLMNOPQRSTUVWXYZ0123456789'')
          (ustr ''aaaaaaaaaaaaaaaaaaaaaaaaaaAAAAAAAAAAAAAAAAAAAAAAAAAA1111111111'') c = Some 64"
    from maketrans_range [OF this] show False by (simp add: ustr_def)
  qed
  with False show ?thesis by (simp add: trans_table_split map_add_def maketrans_replicate)
qed

lemma set_tr_from: "set tr_from = {97..122} \<union> {65..90} \<union> {48..57} \<union> set SYMBOLS"
proof -
  have "set (ustr ''abcdefghijklmnopqrstuvwxyzABCDEFGHIJKLMNOPQRSTUVWXYZ0123456789'') = {97..122} \<union> {65..90} \<union> {48..57}" (is "?L = ?R")
  proof
    show "?L \<subseteq> ?R" by (simp add: ustr_def)
    show "?R \<subseteq> ?L" 
    proof
      fix x :: nat assume "x \<in> ?R"
      then have "(97 \<le> x \<and> x \<le> 122) \<or> (65 \<le> x \<and> x \<le> 90) \<or> (48 \<le> x \<and> x \<le> 57)" by auto
      then show "x \<in> ?L" unfolding ustr_def by simp arith
    qed
  qed
  then show ?thesis by (simp add: tr_from_def)
qed

text \<open>
  Claim C7.  The shape pattern of a password has the length of the password, and a
  character that is neither an ASCII lower-case letter, an ASCII upper-case letter, an
  ASCII digit nor a character of \<open>SYMBOLS\<close> stands unchanged at its place.
\<close>

theorem C7_shape_pattern:
  "length (translate trans_table p) = length p
   \<and> (\<forall>i<length p. p ! i \<notin> {97..122} \<union> {65..90} \<union> {48..57} \<union> set SYMBOLS
         \<longrightarrow> translate trans_table p ! i = p ! i)"
  unfolding set_tr_from [symmetric]
  by (simp add: translate_def trans_table_def maketrans_None)

theorem C7_shape_pattern_witness:
  "length (translate trans_table [233, 97, 92]) = length [233, 97, 92 :: nat]
   \<and> [233, 97, 92] ! 0 \<notin> {97..122} \<union> {65..90} \<union> {48..57} \<union> set SYMBOLS
   \<and> translate trans_table [233, 97, 92] ! 0 = [233, 97, 92] ! 0"
proof -
  have h: "[233, 97, 92] ! 0 \<notin> {97..122} \<union> {65..90} \<union> {48..57} \<union> set SYMBOLS"
    by (simp add: SYMBOLS_value)
  from C7_shape_pattern [of "[233, 97, 92]"]
  have "length (translate trans_table [233, 97, 92]) = length [233, 97, 92 :: nat]"
    and "\<forall>i<length [233, 97, 92 :: nat].
           [233, 97, 92] ! i \<notin> {97..122} \<union> {65..90} \<union> {48..57} \<union> set SYMBOLS
           \<longrightarrow> translate trans_table [233, 97, 92] ! i = [233, 97, 92] ! i"
    by blast+
  with h show ?thesis by auto
qed

lemma stats_regex_names: "distinct (map fst stats_regex)"
  by (simp add: stats_regex_def)

lemma in_matching_rules:
  "(name \<in> set (matching_rules e p))
   = (\<exists>r. map_of stats_regex name = Some r \<and> re_search (isdecimal e) r p)"
  by (force simp: matching_rules_def map_of_eq_Some_iff [OF stats_regex_names])

lemma first_capital_last_symbol:
  "map_of stats_regex ''Has: First capital, last symbol''
   = Some (re_seq [RBol, RAtom (set_of (ustr ''A-Z'')), RStar AAny, RAtom (set_of SYMBOLS), REol])"
  by (simp add: stats_regex_def)

text \<open>
  Claim C3.  The characters that the translation table maps to the marker \<open>@\<close> (64) are
  those of the rules' symbol set \<open>[{SYMBOLS}]\<close> and, in addition, the backslash (92): in
  the set the backslashes of \<open>SYMBOLS\<close> escape the character after them, in \<open>tr_from\<close>
  they are characters of their own.  The password \<open>A\\<close> has the shape \<open>A@\<close>, and the rule
  "Has: First capital, last symbol" does not match it, while it matches \<open>A-\<close>.
\<close>

theorem C3_backslash_differs:
  "{c. trans_table c = Some 64} = {c. class_has (isdecimal e) (cls SYMBOLS) c} \<union> {92}
   \<and> \<not> class_has (isdecimal e) (cls SYMBOLS) 92
   \<and> translate trans_table [65, 92] = [65, 64]
   \<and> ''Has: First capital, last symbol'' \<notin> set (matching_rules e [65, 92])
   \<and> ''Has: First capital, last symbol'' \<in> set (matching_rules e [65, 45])"
proof -
  have 1: "{c. trans_table c = Some 64} = {c. class_has (isdecimal e) (cls SYMBOLS) c} \<union> {92}"
    unfolding trans_table_at cls_SYMBOLS by (auto simp: SYMBOLS_value class_has_def)
  have 2: "\<not> class_has (isdecimal e) (cls SYMBOLS) 92"
    unfolding cls_SYMBOLS by (simp add: class_has_def)
  have t65: "trans_table 65 = Some 65"
    by (simp add: trans_table_split map_add_def maketrans_replicate SYMBOLS_value
        maketrans_def ustr_def)
  have t92: "trans_table 92 = Some 64"
    by (simp add: trans_table_at SYMBOLS_value)
  have 3: "translate trans_table [65, 92] = [65, 64]"
    by (simp add: translate_def t65 t92)
  have AZ: "cls (ustr ''A-Z'') = [CRange 65 90]"
    by (simp add: cls_def ustr_def parse_set.simps)
  have 4: "\<not> re_search (isdecimal e)
         (re_seq [RBol, RAtom (set_of (ustr ''A-Z'')), RStar AAny, RAtom (set_of SYMBOLS), REol])
         [65, 92]"
    by (simp add: re_search_def set_of_def AZ cls_SYMBOLS class_has_def upt_rec)
  have 5: "re_search (isdecimal e)
         (re_seq [RBol, RAtom (set_of (ustr ''A-Z'')), RStar AAny, RAtom (set_of SYMBOLS), REol])
         [65, 45]"
    by (simp add: re_search_def set_of_def AZ cls_SYMBOLS class_has_def upt_rec)
  from 4 5 have 6: "''Has: First capital, last symbol'' \<notin> set (matching_rules e [65, 92])"
    and 7: "''Has: First capital, last symbol'' \<in> set (matching_rules e [65, 45])"
    by (simp_all add: in_matching_rules first_capital_last_symbol)
  from 1 2 3 6 7 show ?thesis by blast
qed

section \<open>Properties of the line normalizer\<close>

lemma greedy_any_first:
  "10 \<notin> set s \<Longrightarrow> \<exists>xs. greedy_run nd AAny (i, s, g) = (i + length s, [], g) # xs"
proof (induction s arbitrary: i)
  case Nil
  then show ?case by simp
next
  case (Cons c cs)
  then obtain xs where "greedy_run nd AAny (Suc i, cs, g) = (Suc i + length cs, [], g) # xs"
    by fastforce
  with Cons.prems show ?case by simp
qed

lemma lazy_seq_Nil:
  "rmatch nd (RSeq (RLazy a) r) (i, [], g) = rmatch nd r (i, [], g)"
  by simp

lemma lazy_seq_Cons:
  "rmatch nd (RSeq (RLazy a) r) (i, c # cs, g) =
     rmatch nd r (i, c # cs, g)
     @ (if atom_ok nd a c then rmatch nd (RSeq (RLazy a) r) (Suc i, cs, g) else [])"
  by simp

lemma colon_prefix_none:
  "58 \<notin> set s \<Longrightarrow> rmatch nd (RSeq (RLazy AAny) (RAtom (ACh 58))) (i, s, g) = []"
proof (induction s arbitrary: i)
  case Nil
  show ?case unfolding lazy_seq_Nil by simp
next
  case (Cons c cs)
  then have "rmatch nd (RSeq (RLazy AAny) (RAtom (ACh 58))) (Suc i, cs, g) = []" by simp
  with Cons.prems show ?case unfolding lazy_seq_Cons by simp
qed

lemma colon_prefix_first:
  "10 \<notin> set s \<Longrightarrow> 58 \<in> set s \<Longrightarrow>
   \<exists>j xs. rmatch nd (RSeq (RLazy AAny) (RAtom (ACh 58))) (i, s, g)
          = (j, tl (dropWhile (\<lambda>c. c \<noteq> 58) s), g) # xs"
proof (induction s arbitrary: i)
  case Nil
  then show ?case by simp
next
  case (Cons c cs)
  show ?case
  proof (cases "c = 58")
    case True
    then show ?thesis unfolding lazy_seq_Cons by simp
  next
    case False
    with Cons.prems have "10 \<notin> set cs" "58 \<in> set cs" "c \<noteq> 10" by auto
    from Cons.IH [OF this(1,2), of "Suc i"] obtain j xs where
      "rmatch nd (RSeq (RLazy AAny) (RAtom (ACh 58))) (Suc i, cs, g)
       = (j, tl (dropWhile (\<lambda>c. c \<noteq> 58) cs), g) # xs" by blast
    with False \<open>c \<noteq> 10\<close> show ?thesis unfolding lazy_seq_Cons by simp
  qed
qed

lemma opt_first:
  "rmatch nd (ROpt r) st = rmatch nd r st @ [st]"
  by simp

lemma opt_colon_prefix_first:
  assumes "10 \<notin> set s"
  shows "\<exists>j xs. rmatch nd (ROpt (RSeq (RLazy AAny) (RAtom (ACh 58)))) (i, s, g)
           = (j, spec_strip_prefix s, g) # xs"
proof (cases "58 \<in> set s")
  case True
  from colon_prefix_first [OF assms True, of nd i g] obtain j xs where
    "rmatch nd (RSeq (RLazy AAny) (RAtom (ACh 58))) (i, s, g)
       = (j, tl (dropWhile (\<lambda>c. c \<noteq> 58) s), g) # xs" by blast
  with True show ?thesis unfolding opt_first by (simp add: spec_strip_prefix_def)
next
  case False
  then have e: "rmatch nd (RSeq (RLazy AAny) (RAtom (ACh 58))) (i, s, g) = []"
    by (rule colon_prefix_none)
  have "rmatch nd (ROpt (RSeq (RLazy AAny) (RAtom (ACh 58)))) (i, s, g) = [(i, s, g)]"
    unfolding opt_first e by simp
  moreover from False have "spec_strip_prefix s = s" by (simp add: spec_strip_prefix_def)
  ultimately show ?thesis by metis
qed

lemma strip_prefix_no_newline: "10 \<notin> set s \<Longrightarrow> 10 \<notin> set (spec_strip_prefix s)"
proof -
  have "set (tl (dropWhile (\<lambda>c. c \<noteq> 58) s)) \<subseteq> set s"
  proof
    fix x assume "x \<in> set (tl (dropWhile (\<lambda>c. c \<noteq> 58) s))"
    then have "x \<in> set (dropWhile (\<lambda>c. c \<noteq> 58) s)"
      by (cases "dropWhile (\<lambda>c. c \<noteq> 58) s") auto
    then show "x \<in> set s" by (rule set_dropWhileD)
  qed
  then show "10 \<notin> set s \<Longrightarrow> 10 \<notin> set (spec_strip_prefix s)"
    by (auto simp: spec_strip_prefix_def)
qed

lemma group_rest_first:
  assumes "10 \<notin> set s"
  shows "\<exists>j xs. rmatch nd (RSeq (RGroup (RStar AAny)) REol) (i, s, g) = (j, [], Some s) # xs"
proof -
  from greedy_any_first [OF assms, of nd i g] obtain xs where
    "greedy_run nd AAny (i, s, g) = (i + length s, [], g) # xs" by blast
  then have "rmatch nd (RSeq (RGroup (RStar AAny)) REol) (i, s, g)
      = (i + length s, [], Some s) # concat (map (rmatch nd REol)
          (map (\<lambda>(j, s', g'). (j, s', Some (take (j - i) s))) xs))"
    by simp
  then show ?thesis by blast
qed

lemma seq_first:
  "rmatch nd r1 st = st1 # xs \<Longrightarrow> rmatch nd r2 st1 = st2 # ys \<Longrightarrow>
   \<exists>zs. rmatch nd (RSeq r1 r2) st = st2 # zs"
  by simp

lemma line_re_first:
  assumes "10 \<notin> set l"
  shows "\<exists>j xs. rmatch nd line_re (0, l, None)
           = (j, [], Some (spec_strip_prefix (spec_strip_prefix l))) # xs"
proof -
  let ?O = "ROpt (RSeq (RLazy AAny) (RAtom (ACh 58)))"
  let ?T = "RSeq (RGroup (RStar AAny)) REol"
  obtain j1 xs1 where 1: "rmatch nd ?O (0, l, None) = (j1, spec_strip_prefix l, None) # xs1"
    using opt_colon_prefix_first [OF assms] by blast
  have n1: "10 \<notin> set (spec_strip_prefix l)" using assms by (rule strip_prefix_no_newline)
  obtain j2 xs2 where 2: "rmatch nd ?O (j1, spec_strip_prefix l, None)
      = (j2, spec_strip_prefix (spec_strip_prefix l), None) # xs2"
    using opt_colon_prefix_first [OF n1] by blast
  have n2: "10 \<notin> set (spec_strip_prefix (spec_strip_prefix l))"
    using n1 by (rule strip_prefix_no_newline)
  obtain j3 xs3 where 3: "rmatch nd ?T (j2, spec_strip_prefix (spec_strip_prefix l), None)
      = (j3, [], Some (spec_strip_prefix (spec_strip_prefix l))) # xs3"
    using group_rest_first [OF n2] by blast
  from seq_first [OF 2 3] obtain xs4 where
    4: "rmatch nd (RSeq ?O ?T) (j1, spec_strip_prefix l, None)
        = (j3, [], Some (spec_strip_prefix (spec_strip_prefix l))) # xs4" by blast
  from seq_first [OF 1 4] obtain xs5 where
    5: "rmatch nd (RSeq ?O (RSeq ?O ?T)) (0, l, None)
        = (j3, [], Some (spec_strip_prefix (spec_strip_prefix l))) # xs5" by blast
  have "line_re = RSeq ?O (RSeq ?O ?T)" by (simp add: line_re_def)
  with 5 show ?thesis by (simp only:) blast
qed

lemma splitlines_from_no_break:
  "list_all (\<lambda>c. \<not> is_linebreak c) cur \<Longrightarrow>
   list_all (list_all (\<lambda>c. \<not> is_linebreak c)) (splitlines_from cur s)"
  by (induction cur s rule: splitlines_from.induct) simp_all

lemma splitlines_no_newline: "l \<in> set (splitlines s) \<Longrightarrow> 10 \<notin> set l"
proof -
  assume l: "l \<in> set (splitlines s)"
  have "list_all (list_all (\<lambda>c. \<not> is_linebreak c)) (splitlines s)"
    unfolding splitlines_def by (rule splitlines_from_no_break) simp
  with l have "list_all (\<lambda>c. \<not> is_linebreak c) l" by (simp add: list_all_iff)
  moreover have "is_linebreak 10" by (simp add: is_linebreak_def)
  ultimately show ?thesis by (auto simp: list_all_iff)
qed

lemma re_match_line_re:
  assumes "10 \<notin> set l"
  shows "re_match nd line_re l = Some (Some (spec_strip_prefix (spec_strip_prefix l)))"
  using line_re_first [OF assms, of nd] by (auto simp: re_match_def)

text \<open>
  Claim C5.  On a line without a line feed (every element of \<open>splitlines\<close> is one) the
  match of \<open>line_re\<close> succeeds and group 1 is the line with at most two leading
  colon-delimited prefixes removed: nothing is removed from a line without a colon, and
  the colons after the second one stay.
\<close>

theorem C5_line_normalizer:
  assumes "10 \<notin> set l"
  shows "re_match nd line_re l = Some (Some (spec_strip_prefix (spec_strip_prefix l)))"
  using assms by (rule re_match_line_re)

theorem C5_line_normalizer_witness:
  "\<forall>nd. re_match nd line_re (ustr ''user:hash:pass:word'') = Some (Some (ustr ''pass:word''))
       \<and> re_match nd line_re (ustr ''a:b'') = Some (Some (ustr ''b''))
       \<and> re_match nd line_re (ustr ''abc'') = Some (Some (ustr ''abc''))"
proof -
  have 1: "10 \<notin> set (ustr ''user:hash:pass:word'')" by (simp add: ustr_def)
  have 2: "10 \<notin> set (ustr ''a:b'')" by (simp add: ustr_def)
  have 3: "10 \<notin> set (ustr ''abc'')" by (simp add: ustr_def)
  have e1: "spec_strip_prefix (spec_strip_prefix (ustr ''user:hash:pass:word'')) = ustr ''pass:word''"
    by (simp add: spec_strip_prefix_def ustr_def)
  have e2: "spec_strip_prefix (spec_strip_prefix (ustr ''a:b'')) = ustr ''b''"
    by (simp add: spec_strip_prefix_def ustr_def)
  have e3: "spec_strip_prefix (spec_strip_prefix (ustr ''abc'')) = ustr ''abc''"
    by (simp add: spec_strip_prefix_def ustr_def)
  show ?thesis
    using C5_line_normalizer [OF 1] C5_line_normalizer [OF 2] C5_line_normalizer [OF 3]
    unfolding e1 e2 e3 by blast
qed

section \<open>Malformed hex escapes\<close>

text \<open>
  Claim C6.  A candidate \<open>$HEX[\<close>payload\<open>]\<close> whose payload has odd length or holds a
  character that is no hexadecimal digit is never passed through: the recovery raises
  (\<open>ValueError\<close> for a non-ASCII payload, \<open>binascii.Error\<close> otherwise), and so it returns
  no password at all, in particular not the undecoded candidate.  The loop body does not
  catch the exception: a line with such a candidate ends the run with it.
\<close>

theorem C6_malformed_hex_raises:
  assumes "odd (length payload) \<or> list_ex (\<lambda>c. hexval c = None) payload"
  shows "(recover (ustr ''$HEX['' @ payload @ [93]) = Inl ValueError
          \<or> recover (ustr ''$HEX['' @ payload @ [93]) = Inl BinasciiError)
         \<and> recover (ustr ''$HEX['' @ payload @ [93]) \<noteq> Inr (ustr ''$HEX['' @ payload @ [93])
         \<and> (re_match (isdecimal e) line_re l = Some (Some (ustr ''$HEX['' @ payload @ [93]))
              \<longrightarrow> loop_body e st l = Inl ValueError \<or> loop_body e st l = Inl BinasciiError)"
proof -
  have r: "recover (ustr ''$HEX['' @ payload @ [93]) = Inl ValueError
        \<or> recover (ustr ''$HEX['' @ payload @ [93]) = Inl BinasciiError"
    using unhexlify_bad [OF assms]
    by (auto simp: recover_def is_hex_wrapped_form payload_of_form)
  have ne: "ustr ''$HEX['' @ payload @ [93] \<noteq> []" by simp
  have "loop_body e st l = Inl ValueError \<or> loop_body e st l = Inl BinasciiError"
    if "re_match (isdecimal e) line_re l = Some (Some (ustr ''$HEX['' @ payload @ [93]))"
    using r that ne by (auto simp: loop_body_def)
  with r show ?thesis by auto
qed

theorem C6_malformed_hex_raises_witness:
  "recover (ustr ''$HEX[abc]'') = Inl BinasciiError
   \<and> recover (ustr ''$HEX[zz]'') = Inl BinasciiError
   \<and> (\<forall>e st. loop_body e st (ustr ''$HEX[abc]'') = Inl BinasciiError)"
proof -
  have h1: "odd (length (ustr ''abc'')) \<or> list_ex (\<lambda>c. hexval c = None) (ustr ''abc'')"
    by (simp add: ustr_def)
  have h2: "odd (length (ustr ''zz'')) \<or> list_ex (\<lambda>c. hexval c = None) (ustr ''zz'')"
    by (simp add: ustr_def hexval_def)
  have e1: "ustr ''$HEX['' @ ustr ''abc'' @ [93] = ustr ''$HEX[abc]''"
    by (simp add: ustr_def)
  have e2: "ustr ''$HEX['' @ ustr ''zz'' @ [93] = ustr ''$HEX[zz]''"
    by (simp add: ustr_def)
  have v1: "recover (ustr ''$HEX[abc]'') \<noteq> Inl ValueError"
    by (simp add: recover_def is_hex_wrapped_def startswith_def unhexlify_def ustr_def)
  have v2: "recover (ustr ''$HEX[zz]'') \<noteq> Inl ValueError"
    by (simp add: recover_def is_hex_wrapped_def startswith_def unhexlify_def ustr_def
        hexval_def)
  have l: "10 \<notin> set (ustr ''$HEX[abc]'')" by (simp add: ustr_def)
  have n: "spec_strip_prefix (spec_strip_prefix (ustr ''$HEX[abc]'')) = ustr ''$HEX[abc]''"
    by (simp add: spec_strip_prefix_def ustr_def)
  have m: "re_match (isdecimal e) line_re (ustr ''$HEX[abc]'') = Some (Some (ustr ''$HEX[abc]''))"
    for e
    by (simp add: re_match_line_re [OF l] n)
  have ne: "ustr ''$HEX[abc]'' \<noteq> []" by (simp add: ustr_def)
  have r1: "recover (ustr ''$HEX[abc]'') = Inl BinasciiError"
    using C6_malformed_hex_raises [OF h1] v1 unfolding e1 by blast
  have r2: "recover (ustr ''$HEX[zz]'') = Inl BinasciiError"
    using C6_malformed_hex_raises [OF h2] v2 unfolding e2 by blast
  have "loop_body e st (ustr ''$HEX[abc]'') = Inl BinasciiError" for e st
    using r1 ne by (simp add: loop_body_def m)
  with r1 r2 show ?thesis by blast
qed

section \<open>Properties of the run\<close>

subsection \<open>Letter frequency\<close>

lemma count_letter_other [simp]:
  "cnt (count_letter e c st) = cnt st"
  "cnt_length (count_letter e c st) = cnt_length st"
  "cnt_pwd (count_letter e c st) = cnt_pwd st"
  "cnt_root (count_letter e c st) = cnt_root st"
  "cnt_regex (count_letter e c st) = cnt_regex st"
  "cnt_pattern (count_letter e c st) = cnt_pattern st"
  "grand_total (count_letter e c st) = grand_total st"
  "total_valid_passwords (count_letter e c st) = total_valid_passwords st"
  "progress (count_letter e c st) = progress st"
  "valid_passwords (count_letter e c st) = valid_passwords st"
  by (simp_all add: count_letter_def)

lemma fold_count_letter_other [simp]:
  "cnt (fold (count_letter e) p st) = cnt st"
  "cnt_length (fold (count_letter e) p st) = cnt_length st"
  "cnt_pwd (fold (count_letter e) p st) = cnt_pwd st"
  "cnt_root (fold (count_letter e) p st) = cnt_root st"
  "cnt_regex (fold (count_letter e) p st) = cnt_regex st"
  "cnt_pattern (fold (count_letter e) p st) = cnt_pattern st"
  "grand_total (fold (count_letter e) p st) = grand_total st"
  "total_valid_passwords (fold (count_letter e) p st) = total_valid_passwords st"
  "progress (fold (count_letter e) p st) = progress st"
  "valid_passwords (fold (count_letter e) p st) = valid_passwords st"
  by (induction p arbitrary: st; simp)+

lemma letter_frequency_other [simp]:
  "cnt (letter_frequency e p st) = cnt st"
  "cnt_length (letter_frequency e p st) = cnt_length st"
  "cnt_pwd (letter_frequency e p st) = cnt_pwd st"
  "cnt_root (letter_frequency e p st) = cnt_root st"
  "cnt_regex (letter_frequency e p st) = cnt_regex st"
  "cnt_pattern (letter_frequency e p st) = cnt_pattern st"
  "grand_total (letter_frequency e p st) = grand_total st"
  "total_valid_passwords (letter_frequency e p st) = total_valid_passwords st"
  "progress (letter_frequency e p st) = progress st"
  "valid_passwords (letter_frequency e p st) = valid_passwords st"
  by (simp_all add: letter_frequency_def)

lemma count_letter_totals:
  "count (cnt_totals (count_letter e c st)) ''chars'' = count (cnt_totals st) ''chars''"
  "count (cnt_totals (count_letter e c st)) ''num''
   + count (cnt_totals (count_letter e c st)) ''alpha''
   + count (cnt_totals (count_letter e c st)) ''symbol''
   = Suc (count (cnt_totals st) ''num'' + count (cnt_totals st) ''alpha''
          + count (cnt_totals st) ''symbol'')"
  by (simp_all add: count_letter_def)

lemma fold_count_letter_totals:
  "count (cnt_totals (fold (count_letter e) p st)) ''chars'' = count (cnt_totals st) ''chars''
   \<and> count (cnt_totals (fold (count_letter e) p st)) ''num''
     + count (cnt_totals (fold (count_letter e) p st)) ''alpha''
     + count (cnt_totals (fold (count_letter e) p st)) ''symbol''
     = length p + (count (cnt_totals st) ''num'' + count (cnt_totals st) ''alpha''
          + count (cnt_totals st) ''symbol'')"
proof (induction p arbitrary: st)
  case Nil
  show ?case by simp
next
  case (Cons c p)
  from Cons.IH [of "count_letter e c st"] count_letter_totals [of e c st]
  show ?case by simp
qed

lemma letter_frequency_agree:
  "cnt_totals st0 = cnt_totals st \<Longrightarrow> letter_totals_agree st \<Longrightarrow>
   letter_totals_agree (letter_frequency e p st0)"
proof (cases "freq e")
  case False
  assume "cnt_totals st0 = cnt_totals st" "letter_totals_agree st"
  with False show ?thesis by (simp add: letter_frequency_def letter_totals_agree_def)
next
  case True
  assume a: "cnt_totals st0 = cnt_totals st" "letter_totals_agree st"
  from fold_count_letter_totals
    [of e p "st0\<lparr>cnt_totals := cnt_totals st0 + replicate_mset (length p) ''chars''\<rparr>"]
  show ?thesis using True a by (simp add: letter_frequency_def letter_totals_agree_def)
qed

subsection \<open>Categories\<close>

lemma categorize_other:
  assumes "categorize e p st = Inr st'"
  shows "cnt_length st' = cnt_length st" "cnt_pwd st' = cnt_pwd st"
    "cnt_regex st' = cnt_regex st" "cnt_pattern st' = cnt_pattern st"
    "cnt_totals st' = cnt_totals st" "cnt_num st' = cnt_num st"
    "cnt_alpha st' = cnt_alpha st" "cnt_symbol st' = cnt_symbol st"
    "grand_total st' = grand_total st" "total_valid_passwords st' = total_valid_passwords st"
    "progress st' = progress st" "valid_passwords st' = valid_passwords st"
  using assms by (auto simp: categorize_def split: if_splits sum.splits)

lemma classify_totals:
  assumes "classify e p st = Inr st'" "letter_totals_agree st"
  shows "letter_totals_agree st'"
proof -
  let ?st3 = "letter_frequency e p
     (st\<lparr>cnt_length := add_mset (length p) (cnt_length st), cnt_pwd := add_mset p (cnt_pwd st)\<rparr>)"
  have 3: "letter_totals_agree ?st3"
    by (rule letter_frequency_agree [OF _ assms(2)]) simp
  from assms(1) have "cnt_totals st' = cnt_totals ?st3"
    by (auto simp: classify_def Let_def dest!: categorize_other(5))
  with 3 show ?thesis by (simp add: letter_totals_agree_def)
qed

lemma loop_body_totals:
  assumes "loop_body e st l = Inr st'" "letter_totals_agree st"
  shows "letter_totals_agree st'"
proof -
  have p: "\<And>f g. letter_totals_agree (st\<lparr>progress := f, valid_passwords := g\<rparr>)"
    "\<And>f. letter_totals_agree (st\<lparr>progress := f\<rparr>)"
    using assms(2) by (simp_all add: letter_totals_agree_def)
  from assms(1) show ?thesis
    by (auto simp: loop_body_def p split: option.splits if_splits sum.splits
        dest: classify_totals [OF _ p(1)])
qed

lemma process_lines_totals:
  "process_lines e st lines = Inr st' \<Longrightarrow> letter_totals_agree st \<Longrightarrow> letter_totals_agree st'"
proof (induction lines arbitrary: st)
  case Nil
  then show ?case by simp
next
  case (Cons l ls)
  from Cons.prems(1) obtain st1 where 1: "loop_body e st l = Inr st1"
    and 2: "process_lines e st1 ls = Inr st'"
    by (auto split: sum.splits)
  from loop_body_totals [OF 1 Cons.prems(2)] Cons.IH [OF 2] show ?case by blast
qed


lemma letter_totals_agree_initial: "letter_totals_agree initial"
  by (simp add: letter_totals_agree_def initial_def)

subsection \<open>Fuzzy matches\<close>

lemma set_update_set: "set (set_update s xs) = set s \<union> set xs"
  by (induction xs arbitrary: s) (auto simp: set_update_def)

lemma set_update_distinct: "distinct s \<Longrightarrow> distinct (set_update s xs)"
  by (induction xs arbitrary: s) (auto simp: set_update_def)

lemma fuzzy_matches_result:
  assumes "\<forall>m\<in>set mall. 80 < snd m \<longrightarrow> w2c (fst m) \<noteq> None"
  shows "\<exists>cats'. fuzzy_matches w2c mall (root, cats)
            = Inr (root + mset (map fst (filter (\<lambda>m. 80 < snd m) mall)), cats')
         \<and> set cats' = set cats \<union> (\<Union>m\<in>{m \<in> set mall. 80 < snd m}.
               case w2c (fst m) of None \<Rightarrow> {} | Some cs \<Rightarrow> set cs)
         \<and> (distinct cats \<longrightarrow> distinct cats')"
  using assms
proof (induction mall arbitrary: root cats)
  case Nil
  show ?case by simp
next
  case (Cons m0 mall)
  then have rest: "\<forall>m\<in>set mall. 80 < snd m \<longrightarrow> w2c (fst m) \<noteq> None" by simp
  show ?case
  proof (cases "80 < snd m0")
    case False
    from Cons.IH [OF rest, of root cats] False show ?thesis by auto
  next
    case True
    with Cons.prems obtain cs where cs: "w2c (fst m0) = Some cs" by auto
    from Cons.IH [OF rest, of "add_mset (fst m0) root" "set_update cats cs"]
    obtain cats' where
      1: "fuzzy_matches w2c mall (add_mset (fst m0) root, set_update cats cs)
            = Inr (add_mset (fst m0) root + mset (map fst (filter (\<lambda>m. 80 < snd m) mall)), cats')"
      and 2: "set cats' = set (set_update cats cs) \<union> (\<Union>m\<in>{m \<in> set mall. 80 < snd m}.
               case w2c (fst m) of None \<Rightarrow> {} | Some cs \<Rightarrow> set cs)"
      and 3: "distinct (set_update cats cs) \<longrightarrow> distinct cats'"
      by blast
    have a: "fuzzy_matches w2c (m0 # mall) (root, cats)
            = Inr (root + mset (map fst (filter (\<lambda>m. 80 < snd m) (m0 # mall))), cats')"
      using True cs 1 by simp
    have b: "set cats' = set cats \<union> (\<Union>m\<in>{m \<in> set (m0 # mall). 80 < snd m}.
               case w2c (fst m) of None \<Rightarrow> {} | Some cs \<Rightarrow> set cs)"
      using True cs 2 by (auto simp: set_update_set)
    have c: "distinct cats \<longrightarrow> distinct cats'"
      using 3 by (simp add: set_update_distinct)
    from a b c show ?thesis by blast
  qed
qed

text \<open>
  Claim C4.  For the matches \<open>mall\<close> of a password (every retained word being a key of
  \<open>word2category\<close>, as the words of the dictionary are) the loop returns, and it has
  counted in \<open>cnt_root\<close> exactly the words of the matches with a score above 80, once per
  such match, and has added to the password's categories exactly the categories of those
  words.  A match with a score of 80 or less, 80 itself included, adds neither its word
  nor its categories.
\<close>

theorem C4_threshold:
  assumes "\<forall>m\<in>set mall. 80 < snd m \<longrightarrow> w2c (fst m) \<noteq> None"
  shows "\<exists>cats'. fuzzy_matches w2c mall (root, cats)
            = Inr (root + mset (map fst (filter (\<lambda>m. 80 < snd m) mall)), cats')
         \<and> set cats' = set cats \<union> (\<Union>m\<in>{m \<in> set mall. 80 < snd m}.
               case w2c (fst m) of None \<Rightarrow> {} | Some cs \<Rightarrow> set cs)"
  using fuzzy_matches_result [OF assms, of root cats] by blast

theorem C4_threshold_witness:
  "\<exists>cats'. fuzzy_matches (word2category demo_env)
              [(ustr ''tiger'', 80), (ustr ''jaguar'', 81)] ({#}, [])
            = Inr ({#ustr ''jaguar''#}, cats')
          \<and> set cats' = {ustr ''animals'', ustr ''cars''}"
proof -
  have w1: "word2category demo_env (ustr ''jaguar'') = Some [ustr ''animals'', ustr ''cars'']"
    by (simp add: word2category_def words_def demo_env_def ustr_def)
  have h: "\<forall>m\<in>set [(ustr ''tiger'', 80), (ustr ''jaguar'', 81 :: int)].
             80 < snd m \<longrightarrow> word2category demo_env (fst m) \<noteq> None"
    by (simp add: w1)
  have s: "{m \<in> set [(ustr ''tiger'', 80), (ustr ''jaguar'', 81 :: int)]. 80 < snd m}
           = {(ustr ''jaguar'', 81)}"
    by auto
  from C4_threshold [OF h, of "{#}" "[]"] show ?thesis
    unfolding s by (simp add: w1 insert_commute)
qed

subsection \<open>The progress counter is only written\<close>

lemma progress_out:
  "(st\<lparr>progress := k\<rparr>)\<lparr>cnt := a1\<rparr> = (st\<lparr>cnt := a1\<rparr>)\<lparr>progress := k\<rparr>"
  "(st\<lparr>progress := k\<rparr>)\<lparr>cnt_length := a2\<rparr> = (st\<lparr>cnt_length := a2\<rparr>)\<lparr>progress := k\<rparr>"
  "(st\<lparr>progress := k\<rparr>)\<lparr>cnt_pwd := a3\<rparr> = (st\<lparr>cnt_pwd := a3\<rparr>)\<lparr>progress := k\<rparr>"
  "(st\<lparr>progress := k\<rparr>)\<lparr>cnt_root := a4\<rparr> = (st\<lparr>cnt_root := a4\<rparr>)\<lparr>progress := k\<rparr>"
  "(st\<lparr>progress := k\<rparr>)\<lparr>cnt_regex := a5\<rparr> = (st\<lparr>cnt_regex := a5\<rparr>)\<lparr>progress := k\<rparr>"
  "(st\<lparr>progress := k\<rparr>)\<lparr>cnt_symbol := a6\<rparr> = (st\<lparr>cnt_symbol := a6\<rparr>)\<lparr>progress := k\<rparr>"
  "(st\<lparr>progress := k\<rparr>)\<lparr>cnt_alpha := a7\<rparr> = (st\<lparr>cnt_alpha := a7\<rparr>)\<lparr>progress := k\<rparr>"
  "(st\<lparr>progress := k\<rparr>)\<lparr>cnt_num := a8\<rparr> = (st\<lparr>cnt_num := a8\<rparr>)\<lparr>progress := k\<rparr>"
  "(st\<lparr>progress := k\<rparr>)\<lparr>cnt_totals := a9\<rparr> = (st\<lparr>cnt_totals := a9\<rparr>)\<lparr>progress := k\<rparr>"
  "(st\<lparr>progress := k\<rparr>)\<lparr>cnt_pattern := a10\<rparr> = (st\<lparr>cnt_pattern := a10\<rparr>)\<lparr>progress := k\<rparr>"
  "(st\<lparr>progress := k\<rparr>)\<lparr>valid_passwords := v\<rparr> = (st\<lparr>valid_passwords := v\<rparr>)\<lparr>progress := k\<rparr>"
  by (cases st; simp)+

lemma count_letter_progress:
  "count_letter e c (st\<lparr>progress := k\<rparr>) = (count_letter e c st)\<lparr>progress := k\<rparr>"
  by (simp add: count_letter_def progress_out)

lemma fold_count_letter_progress:
  "fold (count_letter e) p (st\<lparr>progress := k\<rparr>) = (fold (count_letter e) p st)\<lparr>progress := k\<rparr>"
  by (induction p arbitrary: st) (simp_all add: count_letter_progress)

lemma letter_frequency_progress:
  "letter_frequency e p (st\<lparr>progress := k\<rparr>) = (letter_frequency e p st)\<lparr>progress := k\<rparr>"
  by (simp add: letter_frequency_def progress_out fold_count_letter_progress)

lemma categorize_progress:
  "categorize e p (st\<lparr>progress := k\<rparr>)
   = map_sum id (\<lambda>s. s\<lparr>progress := k\<rparr>) (categorize e p st)"
  by (simp add: categorize_def progress_out split: sum.splits prod.splits)

lemma classify_progress:
  "classify e p (st\<lparr>progress := k\<rparr>)
   = map_sum id (\<lambda>s. s\<lparr>progress := k\<rparr>) (classify e p st)"
  by (simp add: classify_def Let_def progress_out letter_frequency_progress categorize_progress)

lemma loop_body_progress:
  "loop_body e (st\<lparr>progress := k\<rparr>) l
   = map_sum id (\<lambda>s. s\<lparr>progress := Suc k\<rparr>) (loop_body e st l)"
proof -
  have c: "classify e p (st\<lparr>progress := j, valid_passwords := v\<rparr>)
       = map_sum id (\<lambda>s. s\<lparr>progress := j\<rparr>) (classify e p (st\<lparr>valid_passwords := v\<rparr>))"
    for p v j
    by (simp add: progress_out classify_progress)
  have m: "map_sum id (\<lambda>s. s\<lparr>progress := Suc k\<rparr>) (map_sum id (\<lambda>s. s\<lparr>progress := j\<rparr>) x)
       = map_sum id (\<lambda>s. s\<lparr>progress := Suc k\<rparr>) x" for j and x :: "error + state"
    by (cases x) simp_all
  show ?thesis
    by (simp add: loop_body_def c m split: option.splits sum.splits)
qed

lemma process_lines_progress:
  "process_lines e (st\<lparr>progress := k\<rparr>) ls
   = map_sum id (\<lambda>s. s\<lparr>progress := k + length ls\<rparr>) (process_lines e st ls)"
proof (induction ls arbitrary: st k)
  case Nil
  show ?case by simp
next
  case (Cons l ls)
  show ?case
  proof (cases "loop_body e st l")
    case (Inl err)
    then show ?thesis by (simp add: loop_body_progress)
  next
    case (Inr s1)
    with Cons.IH [where st = s1 and k = "Suc k"] show ?thesis by (simp add: loop_body_progress)
  qed
qed

lemma classify_keeps:
  assumes "classify e p st = Inr st'"
  shows "progress st' = progress st" "valid_passwords st' = valid_passwords st"
    "grand_total st' = grand_total st" "total_valid_passwords st' = total_valid_passwords st"
    "cnt_length st' = add_mset (length p) (cnt_length st)"
    "cnt_pwd st' = add_mset p (cnt_pwd st)"
    "cnt_pattern st' = add_mset (translate trans_table p) (cnt_pattern st)"
  using assms
  by (auto simp: classify_def Let_def dest: categorize_other)

lemma loop_body_counts:
  assumes "loop_body e st l = Inr st'"
  shows "progress st' = Suc (progress st)" "grand_total st' = grand_total st"
    "total_valid_passwords st' = total_valid_passwords st"
  using assms
  by (auto simp: loop_body_def split: option.splits if_splits sum.splits dest: classify_keeps)

lemma process_lines_counts:
  "process_lines e st ls = Inr st' \<Longrightarrow>
   progress st' = progress st + length ls \<and> grand_total st' = grand_total st
   \<and> total_valid_passwords st' = total_valid_passwords st"
proof (induction ls arbitrary: st)
  case Nil
  then show ?case by simp
next
  case (Cons l ls)
  from Cons.prems obtain s1 where 1: "loop_body e st l = Inr s1"
    and 2: "process_lines e s1 ls = Inr st'" by (auto split: sum.splits)
  from loop_body_counts [OF 1] Cons.IH [OF 2] show ?case by simp
qed

lemma process_lines_append:
  "process_lines e st (xs @ ys)
   = (case process_lines e st xs of Inl err \<Rightarrow> Inl err | Inr s \<Rightarrow> process_lines e s ys)"
  by (induction xs arbitrary: st) (simp_all split: sum.splits)

lemma loop_body_empty:
  assumes "re_match (isdecimal e) line_re l = Some (Some [])"
  shows "loop_body e st l = Inr (st\<lparr>progress := Suc (progress st)\<rparr>)"
  using assms by (simp add: loop_body_def)

lemma process_lines_skip:
  assumes "re_match (isdecimal e) line_re l = Some (Some [])"
  shows "process_lines e st (xs @ l # ys)
   = map_sum id (\<lambda>s. s\<lparr>progress := Suc (progress s)\<rparr>) (process_lines e st (xs @ ys))"
proof (cases "process_lines e st xs")
  case (Inl err)
  then show ?thesis by (simp add: process_lines_append)
next
  case (Inr s)
  have a: "process_lines e st (xs @ l # ys)
           = map_sum id (\<lambda>t. t\<lparr>progress := Suc (progress s) + length ys\<rparr>) (process_lines e s ys)"
    using Inr process_lines_progress [where e = e and st = s and k = "Suc (progress s)" and ls = ys]
    by (simp add: process_lines_append loop_body_empty [OF assms])
  have b: "process_lines e st (xs @ ys) = process_lines e s ys"
    using Inr by (simp add: process_lines_append)
  show ?thesis
  proof (cases "process_lines e s ys")
    case (Inl err)
    with a b show ?thesis by simp
  next
    case (Inr t)
    from process_lines_counts [OF Inr] have "progress t = progress s + length ys" by simp
    with a b Inr show ?thesis by simp
  qed
qed

lemma file_loop_skip:
  assumes "re_match (isdecimal e) line_re l = Some (Some [])"
  shows "file_loop e st (xs @ l # ys)
   = map_sum id (\<lambda>s. s\<lparr>grand_total := Suc (grand_total s), progress := Suc (progress s)\<rparr>)
       (file_loop e st (xs @ ys))"
  by (cases "process_lines e (st\<lparr>progress := 0, valid_passwords := 0\<rparr>) (xs @ ys)")
     (simp_all add: file_loop_def process_lines_skip [OF assms])


subsection \<open>Category counts\<close>

lemma categorize_cnt:
  assumes "categorize e p st = Inr st'"
  shows "if 3 < length p \<and> \<not> no_categories e \<and> words e \<noteq> []
         then size (cnt st) < size (cnt st') else cnt st' = cnt st"
  using assms by (auto simp: categorize_def split: if_splits sum.splits)

lemma classify_cnt:
  assumes "classify e p st = Inr st'"
  shows "if 3 < length p \<and> \<not> no_categories e \<and> words e \<noteq> []
         then size (cnt st) < size (cnt st') else cnt st' = cnt st"
  using assms categorize_cnt [of e p _ st'] by (fastforce simp: classify_def Let_def)

lemma loop_body_long_counted:
  assumes "loop_body e st l = Inr st'" "\<not> no_categories e" "words e \<noteq> []" "long_counted st"
  shows "long_counted st'"
proof -
  have "st' = st\<lparr>progress := Suc (progress st)\<rparr>
    \<or> (\<exists>p. classify e p (st\<lparr>progress := Suc (progress st),
                              valid_passwords := Suc (valid_passwords st)\<rparr>) = Inr st')"
    using assms(1) by (auto simp: loop_body_def split: option.splits if_splits sum.splits)
  then show ?thesis
  proof
    assume "st' = st\<lparr>progress := Suc (progress st)\<rparr>"
    with assms(4) show ?thesis by (simp add: long_counted_def)
  next
    assume "\<exists>p. classify e p (st\<lparr>progress := Suc (progress st),
                              valid_passwords := Suc (valid_passwords st)\<rparr>) = Inr st'"
    then obtain p where c: "classify e p (st\<lparr>progress := Suc (progress st),
                              valid_passwords := Suc (valid_passwords st)\<rparr>) = Inr st'" by blast
    from classify_keeps(5) [OF c] classify_cnt [OF c] assms(2,3,4)
    show ?thesis by (auto simp: long_counted_def split: if_splits)
  qed
qed

lemma loop_body_valid:
  assumes "loop_body e st l = Inr st'"
  shows "size (cnt_length st') + valid_passwords st = size (cnt_length st) + valid_passwords st'"
proof -
  have "st' = st\<lparr>progress := Suc (progress st)\<rparr>
    \<or> (\<exists>p. classify e p (st\<lparr>progress := Suc (progress st),
                              valid_passwords := Suc (valid_passwords st)\<rparr>) = Inr st')"
    using assms(1) by (auto simp: loop_body_def split: option.splits if_splits sum.splits)
  then show ?thesis
  proof
    assume "st' = st\<lparr>progress := Suc (progress st)\<rparr>"
    then show ?thesis by simp
  next
    assume "\<exists>p. classify e p (st\<lparr>progress := Suc (progress st),
                              valid_passwords := Suc (valid_passwords st)\<rparr>) = Inr st'"
    then obtain p where c: "classify e p (st\<lparr>progress := Suc (progress st),
                              valid_passwords := Suc (valid_passwords st)\<rparr>) = Inr st'" by blast
    from classify_keeps(5) [OF c] classify_keeps(2) [OF c] show ?thesis by simp
  qed
qed

lemma loop_body_disabled:
  assumes "loop_body e st l = Inr st'" "no_categories e \<or> words e = []"
  shows "cnt st' = cnt st"
proof -
  have "st' = st\<lparr>progress := Suc (progress st)\<rparr>
    \<or> (\<exists>p. classify e p (st\<lparr>progress := Suc (progress st),
                              valid_passwords := Suc (valid_passwords st)\<rparr>) = Inr st')"
    using assms(1) by (auto simp: loop_body_def split: option.splits if_splits sum.splits)
  then show ?thesis
  proof
    assume "st' = st\<lparr>progress := Suc (progress st)\<rparr>"
    then show ?thesis by simp
  next
    assume "\<exists>p. classify e p (st\<lparr>progress := Suc (progress st),
                              valid_passwords := Suc (valid_passwords st)\<rparr>) = Inr st'"
    then obtain p where c: "classify e p (st\<lparr>progress := Suc (progress st),
                              valid_passwords := Suc (valid_passwords st)\<rparr>) = Inr st'" by blast
    from classify_cnt [OF c] assms(2) show ?thesis by (auto split: if_splits)
  qed
qed

lemma process_lines_categories:
  "process_lines e st ls = Inr st' \<Longrightarrow>
   size (cnt_length st') + valid_passwords st = size (cnt_length st) + valid_passwords st'
   \<and> (\<not> no_categories e \<and> words e \<noteq> [] \<and> long_counted st \<longrightarrow> long_counted st')
   \<and> (no_categories e \<or> words e = [] \<longrightarrow> cnt st' = cnt st)"
proof (induction ls arbitrary: st)
  case Nil
  then show ?case by simp
next
  case (Cons l ls)
  from Cons.prems obtain s1 where 1: "loop_body e st l = Inr s1"
    and 2: "process_lines e s1 ls = Inr st'" by (auto split: sum.splits)
  from loop_body_valid [OF 1] loop_body_long_counted [OF 1] loop_body_disabled [OF 1]
    Cons.IH [OF 2]
  show ?case by auto
qed

lemma file_loop_invariant:
  assumes "file_loop e st lines = Inr st'" "run_invariant e st"
  shows "run_invariant e st'"
proof -
  from assms(1) obtain s1 where
    1: "process_lines e (st\<lparr>progress := 0, valid_passwords := 0\<rparr>) lines = Inr s1"
    and 2: "st' = s1\<lparr>grand_total := grand_total s1 + length lines,
                     total_valid_passwords := total_valid_passwords s1 + valid_passwords s1\<rparr>"
    by (auto simp: file_loop_def split: sum.splits)
  from process_lines_counts [OF 1] have t: "total_valid_passwords s1 = total_valid_passwords st"
    by simp
  from process_lines_categories [OF 1] assms(2) t show ?thesis
    unfolding 2 by (auto simp: run_invariant_def long_counted_def split: if_splits)
qed

lemma process_files_invariant:
  "process_files e st fs = Inr st' \<Longrightarrow> run_invariant e st \<Longrightarrow> run_invariant e st'"
proof (induction fs arbitrary: st)
  case Nil
  then show ?case by simp
next
  case (Cons f fs)
  from Cons.prems(1) obtain s1 where 1: "file_loop e st (splitlines f) = Inr s1"
    and 2: "process_files e s1 fs = Inr st'"
    by (auto simp: process_file_def split: sum.splits)
  from file_loop_invariant [OF 1 Cons.prems(2)] Cons.IH [OF 2] show ?case by blast
qed

lemma main_invariant: "main e fs = Inr st \<Longrightarrow> run_invariant e st"
  unfolding main_def
  by (erule process_files_invariant) (simp add: run_invariant_def initial_def long_counted_def)

subsection \<open>The per-character counters\<close>

lemma size_three_classes:
  "size (filter_mset P M) + size (filter_mset (\<lambda>c. \<not> P c \<and> Q c) M)
   + size (filter_mset (\<lambda>c. \<not> P c \<and> \<not> Q c) M) = size M"
  by (induction M) auto

lemma exact_agree: "letter_counts_exact e st \<Longrightarrow> letter_totals_agree st"
  using size_three_classes [of "isnumeric e" "counted_chars e st" "isalpha e"]
  by (simp add: letter_counts_exact_def letter_totals_agree_def)

lemma count_letter_exact:
  "cnt_num (count_letter e c st) = cnt_num st + filter_mset (isnumeric e) {#c#}"
  "cnt_alpha (count_letter e c st)
     = cnt_alpha st + filter_mset (\<lambda>c. \<not> isnumeric e c \<and> isalpha e c) {#c#}"
  "cnt_symbol (count_letter e c st)
     = cnt_symbol st + filter_mset (\<lambda>c. \<not> isnumeric e c \<and> \<not> isalpha e c) {#c#}"
  "count (cnt_totals (count_letter e c st)) ''chars'' = count (cnt_totals st) ''chars''"
  "count (cnt_totals (count_letter e c st)) ''num''
     = count (cnt_totals st) ''num'' + size (filter_mset (isnumeric e) {#c#})"
  "count (cnt_totals (count_letter e c st)) ''alpha''
     = count (cnt_totals st) ''alpha''
       + size (filter_mset (\<lambda>c. \<not> isnumeric e c \<and> isalpha e c) {#c#})"
  "count (cnt_totals (count_letter e c st)) ''symbol''
     = count (cnt_totals st) ''symbol''
       + size (filter_mset (\<lambda>c. \<not> isnumeric e c \<and> \<not> isalpha e c) {#c#})"
  by (simp_all add: count_letter_def)

lemma fold_count_letter_exact:
  "cnt_num (fold (count_letter e) p st) = cnt_num st + filter_mset (isnumeric e) (mset p)
   \<and> cnt_alpha (fold (count_letter e) p st)
     = cnt_alpha st + filter_mset (\<lambda>c. \<not> isnumeric e c \<and> isalpha e c) (mset p)
   \<and> cnt_symbol (fold (count_letter e) p st)
     = cnt_symbol st + filter_mset (\<lambda>c. \<not> isnumeric e c \<and> \<not> isalpha e c) (mset p)
   \<and> count (cnt_totals (fold (count_letter e) p st)) ''chars'' = count (cnt_totals st) ''chars''
   \<and> count (cnt_totals (fold (count_letter e) p st)) ''num''
     = count (cnt_totals st) ''num'' + size (filter_mset (isnumeric e) (mset p))
   \<and> count (cnt_totals (fold (count_letter e) p st)) ''alpha''
     = count (cnt_totals st) ''alpha''
       + size (filter_mset (\<lambda>c. \<not> isnumeric e c \<and> isalpha e c) (mset p))
   \<and> count (cnt_totals (fold (count_letter e) p st)) ''symbol''
     = count (cnt_totals st) ''symbol''
       + size (filter_mset (\<lambda>c. \<not> isnumeric e c \<and> \<not> isalpha e c) (mset p))"
proof (induction p arbitrary: st)
  case Nil
  show ?case by simp
next
  case (Cons c p)
  from Cons.IH [of "count_letter e c st"] show ?case
    by (simp add: count_letter_exact)
qed

lemma letter_frequency_exact:
  assumes "letter_counts_exact e st" "cnt_num st0 = cnt_num st" "cnt_alpha st0 = cnt_alpha st"
    "cnt_symbol st0 = cnt_symbol st" "cnt_totals st0 = cnt_totals st"
    "cnt_pwd s1 = add_mset p (cnt_pwd st)"
    "cnt_num s1 = cnt_num (letter_frequency e p st0)"
    "cnt_alpha s1 = cnt_alpha (letter_frequency e p st0)"
    "cnt_symbol s1 = cnt_symbol (letter_frequency e p st0)"
    "cnt_totals s1 = cnt_totals (letter_frequency e p st0)"
  shows "letter_counts_exact e s1"
proof (cases "freq e")
  case False
  with assms show ?thesis
    by (simp add: letter_counts_exact_def counted_chars_def letter_frequency_def)
next
  case True
  from fold_count_letter_exact
    [of e p "st0\<lparr>cnt_totals := cnt_totals st0 + replicate_mset (length p) ''chars''\<rparr>"]
  show ?thesis using True assms
    by (simp add: letter_counts_exact_def counted_chars_def letter_frequency_def)
qed

lemma classify_exact:
  assumes "classify e p st = Inr st'" "letter_counts_exact e st"
  shows "letter_counts_exact e st'"
proof -
  let ?st2 = "st\<lparr>cnt_length := add_mset (length p) (cnt_length st), cnt_pwd := add_mset p (cnt_pwd st)\<rparr>"
  from assms(1) obtain s5 where c: "categorize e p s5 = Inr st'"
    and 5: "cnt_num s5 = cnt_num (letter_frequency e p ?st2)"
      "cnt_alpha s5 = cnt_alpha (letter_frequency e p ?st2)"
      "cnt_symbol s5 = cnt_symbol (letter_frequency e p ?st2)"
      "cnt_totals s5 = cnt_totals (letter_frequency e p ?st2)"
    by (auto simp: classify_def Let_def)
  show ?thesis
    by (rule letter_frequency_exact [OF assms(2), of ?st2 st' p])
       (simp_all add: classify_keeps(6) [OF assms(1)] categorize_other [OF c] 5)
qed

lemma loop_body_exact:
  assumes "loop_body e st l = Inr st'" "letter_counts_exact e st"
  shows "letter_counts_exact e st'"
proof -
  have p: "letter_counts_exact e (st\<lparr>progress := f, valid_passwords := g\<rparr>)"
    "letter_counts_exact e (st\<lparr>progress := f\<rparr>)" for f g
    using assms(2) by (simp_all add: letter_counts_exact_def counted_chars_def)
  from assms(1) show ?thesis
    by (auto simp: loop_body_def p split: option.splits if_splits sum.splits
        dest: classify_exact [OF _ p(1)])
qed

lemma process_lines_exact:
  "process_lines e st lines = Inr st' \<Longrightarrow> letter_counts_exact e st \<Longrightarrow> letter_counts_exact e st'"
proof (induction lines arbitrary: st)
  case Nil
  then show ?case by simp
next
  case (Cons l ls)
  from Cons.prems(1) obtain st1 where 1: "loop_body e st l = Inr st1"
    and 2: "process_lines e st1 ls = Inr st'"
    by (auto split: sum.splits)
  from loop_body_exact [OF 1 Cons.prems(2)] Cons.IH [OF 2] show ?case by blast
qed

lemma letter_counts_exact_initial: "letter_counts_exact e initial"
  by (simp add: letter_counts_exact_def counted_chars_def initial_def)

text \<open>
  Claim C10.  Processing any number of lines keeps the letter totals in agreement: when
  \<open>cnt_totals["chars"]\<close> is the sum of the totals of \<open>num\<close>, \<open>alpha\<close> and \<open>symbol\<close> before
  the lines, it is so after them.  It also keeps the per-character counters exact, as
  they are at the start of a run: with letter-frequency mode on, every character of every
  counted password is in exactly one of \<open>cnt_num\<close> (the numeric ones), \<open>cnt_alpha\<close> (the
  alphabetic ones that are not numeric) and \<open>cnt_symbol\<close> (the rest), the total \<open>chars\<close>
  is the number of all these characters and the totals \<open>num\<close>, \<open>alpha\<close> and \<open>symbol\<close> are
  the sizes of the three counters; with the mode off all of them stay empty.
\<close>

theorem C10_letter_totals:
  assumes "process_lines e st lines = Inr st'"
  shows "(letter_totals_agree st \<longrightarrow> letter_totals_agree st')
     \<and> (letter_counts_exact e st \<longrightarrow> letter_counts_exact e st' \<and> letter_totals_agree st')"
  using process_lines_totals [OF assms] process_lines_exact [OF assms] exact_agree
  by blast

theorem C10_letter_totals_witness:
  "\<exists>st'. process_lines demo_env initial [ustr ''a1!''] = Inr st'
         \<and> letter_totals_agree st'
         \<and> count (cnt_totals st') ''chars'' = 3
         \<and> cnt_num st' = {#49#} \<and> cnt_alpha st' = {#97#} \<and> cnt_symbol st' = {#33#}
         \<and> count (cnt_totals st') ''num'' = 1
         \<and> count (cnt_totals st') ''alpha'' = 1
         \<and> count (cnt_totals st') ''symbol'' = 1"
proof -
  have e: "ustr ''a1!'' = [97, 49, 33]" by (simp add: ustr_def)
  have l: "10 \<notin> set [97, 49, 33 :: nat]" by simp
  have n: "spec_strip_prefix (spec_strip_prefix [97, 49, 33]) = [97, 49, 33]"
    by (simp add: spec_strip_prefix_def)
  have r: "recover [97, 49, 33] = Inr [97, 49, 33]"
    by (simp add: recover_def is_hex_wrapped_def startswith_def ustr_def)
  have c: "\<exists>st'. classify demo_env [97, 49, 33] st = Inr st'
       \<and> cnt_pwd st' = add_mset [97, 49, 33] (cnt_pwd st)" for st
    by (simp add: classify_def Let_def categorize_def)
  have "\<exists>st'. process_lines demo_env initial [ustr ''a1!''] = Inr st'
          \<and> cnt_pwd st' = {#[97, 49, 33]#}"
    unfolding e
    using c [of "initial\<lparr>progress := Suc 0, valid_passwords := Suc 0\<rparr>"]
    by (auto simp: loop_body_def re_match_line_re [OF l] n r initial_def)
  then obtain st' where 1: "process_lines demo_env initial [ustr ''a1!''] = Inr st'"
    and 2: "cnt_pwd st' = {#[97, 49, 33]#}" by blast
  from C10_letter_totals [OF 1] letter_counts_exact_initial [of demo_env]
  have x: "letter_counts_exact demo_env st'" and a: "letter_totals_agree st'" by blast+
  have k: "counted_chars demo_env st' = {#97, 49, 33#}"
    by (simp add: counted_chars_def 2 demo_env_def)
  from x have "cnt_num st' = {#49#}" "cnt_alpha st' = {#97#}" "cnt_symbol st' = {#33#}"
    "count (cnt_totals st') ''chars'' = 3"
    unfolding letter_counts_exact_def k
    by (simp_all add: demo_env_def ascii_digit_def ascii_letter_def)
  moreover from x this(1,2,3) have "count (cnt_totals st') ''num'' = 1"
    "count (cnt_totals st') ''alpha'' = 1" "count (cnt_totals st') ''symbol'' = 1"
    by (simp_all add: letter_counts_exact_def)
  ultimately show ?thesis using 1 a by blast
qed

subsection \<open>The categories of each password\<close>

lemma fuzzy_matches_Inr:
  "fuzzy_matches w2c mall (root, cats) = Inr (root', cats') \<Longrightarrow>
   root' = root + mset (map fst (filter (\<lambda>m. 80 < snd m) mall))
   \<and> set cats' = set cats \<union> set (concat (map (\<lambda>m. case w2c (fst m) of None \<Rightarrow> [] | Some cs \<Rightarrow> cs)
                                    (filter (\<lambda>m. 80 < snd m) mall)))
   \<and> (distinct cats \<longrightarrow> distinct cats')"
proof (induction mall arbitrary: root cats)
  case Nil
  then show ?case by simp
next
  case (Cons m0 mall)
  show ?case
  proof (cases "80 < snd m0")
    case False
    with Cons.prems have "fuzzy_matches w2c mall (root, cats) = Inr (root', cats')" by simp
    from Cons.IH [OF this] False show ?thesis by simp
  next
    case True
    with Cons.prems obtain cs where cs: "w2c (fst m0) = Some cs"
      and r: "fuzzy_matches w2c mall (add_mset (fst m0) root, set_update cats cs) = Inr (root', cats')"
      by (auto split: option.splits)
    from Cons.IH [OF r] True cs show ?thesis
      by (auto simp: set_update_set set_update_distinct)
  qed
qed

lemma categorize_exact:
  assumes "categorize e p st = Inr st'"
  shows "cnt st' = cnt st + category_contribution e p"
proof (cases "3 < length p \<and> \<not> no_categories e \<and> words e \<noteq> []")
  case False
  with assms show ?thesis by (auto simp: categorize_def category_contribution_def)
next
  case True
  with assms obtain root pwc where
    f: "fuzzy_matches (word2category e) (process_extract e p (words e)) (cnt_root st, []) = Inr (root, pwc)"
    and c: "cnt st' = cnt st + mset (if pwc = [] then [no_category] else pwc)"
    by (auto simp: categorize_def split: sum.splits)
  from fuzzy_matches_Inr [OF f] have s: "set pwc = set (retained_categories e p)"
    and d: "distinct pwc"
    by (simp_all add: retained_categories_def)
  from s have e: "(pwc = []) = (retained_categories e p = [])"
    by (metis set_empty)
  have "mset pwc = mset (remdups (retained_categories e p))"
    using s d by (simp add: set_eq_iff_mset_eq_distinct [symmetric])
  with c e True show ?thesis
    by (simp add: category_contribution_def password_labels_def)
qed

lemma classify_categories:
  assumes "classify e p st = Inr st'"
  shows "cnt st' = cnt st + category_contribution e p"
proof -
  from assms obtain s5 where c: "categorize e p s5 = Inr st'" and 5: "cnt s5 = cnt st"
    by (auto simp: classify_def Let_def)
  from categorize_exact [OF c] 5 show ?thesis by simp
qed

lemma loop_body_categories_exact:
  assumes "loop_body e st l = Inr st'" "categories_exact e st"
  shows "categories_exact e st'"
proof -
  have "st' = st\<lparr>progress := Suc (progress st)\<rparr>
    \<or> (\<exists>p. classify e p (st\<lparr>progress := Suc (progress st),
                              valid_passwords := Suc (valid_passwords st)\<rparr>) = Inr st')"
    using assms(1) by (auto simp: loop_body_def split: option.splits if_splits sum.splits)
  then show ?thesis
  proof
    assume "st' = st\<lparr>progress := Suc (progress st)\<rparr>"
    with assms(2) show ?thesis by (simp add: categories_exact_def)
  next
    assume "\<exists>p. classify e p (st\<lparr>progress := Suc (progress st),
                              valid_passwords := Suc (valid_passwords st)\<rparr>) = Inr st'"
    then obtain p where c: "classify e p (st\<lparr>progress := Suc (progress st),
                              valid_passwords := Suc (valid_passwords st)\<rparr>) = Inr st'" by blast
    from classify_keeps(6) [OF c] classify_categories [OF c] assms(2)
    show ?thesis by (simp add: categories_exact_def)
  qed
qed

lemma process_lines_categories_exact:
  "process_lines e st ls = Inr st' \<Longrightarrow> categories_exact e st \<Longrightarrow> categories_exact e st'"
proof (induction ls arbitrary: st)
  case Nil
  then show ?case by simp
next
  case (Cons l ls)
  from Cons.prems(1) obtain s1 where 1: "loop_body e st l = Inr s1"
    and 2: "process_lines e s1 ls = Inr st'" by (auto split: sum.splits)
  from loop_body_categories_exact [OF 1 Cons.prems(2)] Cons.IH [OF 2] show ?case by blast
qed

lemma file_loop_categories_exact:
  assumes "file_loop e st lines = Inr st'" "categories_exact e st"
  shows "categories_exact e st'"
proof -
  from assms(1) obtain s1 where
    1: "process_lines e (st\<lparr>progress := 0, valid_passwords := 0\<rparr>) lines = Inr s1"
    and 2: "st' = s1\<lparr>grand_total := grand_total s1 + length lines,
                     total_valid_passwords := total_valid_passwords s1 + valid_passwords s1\<rparr>"
    by (auto simp: file_loop_def split: sum.splits)
  from assms(2) have "categories_exact e (st\<lparr>progress := 0, valid_passwords := 0\<rparr>)"
    by (simp add: categories_exact_def)
  from process_lines_categories_exact [OF 1 this] show ?thesis
    unfolding 2 by (simp add: categories_exact_def)
qed

lemma process_files_categories_exact:
  "process_files e st fs = Inr st' \<Longrightarrow> categories_exact e st \<Longrightarrow> categories_exact e st'"
proof (induction fs arbitrary: st)
  case Nil
  then show ?case by simp
next
  case (Cons f fs)
  from Cons.prems(1) obtain s1 where 1: "file_loop e st (splitlines f) = Inr s1"
    and 2: "process_files e s1 fs = Inr st'"
    by (auto simp: process_file_def split: sum.splits)
  from file_loop_categories_exact [OF 1 Cons.prems(2)] Cons.IH [OF 2] show ?case by blast
qed

lemma main_categories_exact: "main e fs = Inr st \<Longrightarrow> categories_exact e st"
  unfolding main_def
  by (erule process_files_categories_exact) (simp add: categories_exact_def initial_def)

subsection \<open>Concrete runs\<close>

lemma ustr_vals:
  "ustr ''$HEX[]'' = [36, 72, 69, 88, 91, 93]"
  "ustr ''abc'' = [97, 98, 99]"
  "ustr ''jaguar'' = [106, 97, 103, 117, 97, 114]"
  by (simp_all add: ustr_def)

text \<open>
  Claim C2.  The line \<open>$HEX[]\<close> is not empty, so it passes the test for empty passwords
  and is counted as valid; the recovery then decodes it to the empty password, and the
  empty password is classified: its length 0, its value and its (empty) shape pattern are
  counted.
\<close>

theorem C2_hex_empty_classified:
  "\<exists>st'. loop_body e initial (ustr ''$HEX[]'') = Inr st'
     \<and> valid_passwords st' = 1 \<and> cnt_length st' = {#0#} \<and> cnt_pwd st' = {#[]#}
     \<and> cnt_pattern st' = {#[]#}"
proof -
  have l: "10 \<notin> set [36, 72, 69, 88, 91, 93 :: nat]" by simp
  have n: "spec_strip_prefix (spec_strip_prefix [36, 72, 69, 88, 91, 93]) = [36, 72, 69, 88, 91, 93]"
    by (simp add: spec_strip_prefix_def)
  have r: "recover [36, 72, 69, 88, 91, 93] = Inr []"
    by (simp add: recover_def is_hex_wrapped_def startswith_def ustr_def unhexlify_def
        decode_latin1_def)
  have f: "letter_frequency e [] s = s" for s
    by (cases "freq e") (simp_all add: letter_frequency_def)
  show ?thesis
    unfolding ustr_vals
    by (simp add: loop_body_def re_match_line_re [OF l] n r classify_def Let_def
        categorize_def f initial_def translate_def)
qed

text \<open>
  Claim C1, as stated, fails: with the categorization on and a dictionary of two
  words, the run over the single line \<open>abc\<close> has one valid password and no category
  count at all.
\<close>

theorem C1_short_password_counterexample:
  "map_sum id total_valid_passwords (main demo_env [ustr ''abc'']) = Inr 1
   \<and> map_sum id (size \<circ> cnt) (main demo_env [ustr ''abc'']) = Inr 0"
proof -
  have l: "10 \<notin> set [97, 98, 99 :: nat]" by simp
  have n: "spec_strip_prefix (spec_strip_prefix [97, 98, 99]) = [97, 98, 99]"
    by (simp add: spec_strip_prefix_def)
  have r: "recover [97, 98, 99] = Inr [97, 98, 99]"
    by (simp add: recover_def is_hex_wrapped_def startswith_def ustr_def)
  have s: "splitlines [97, 98, 99] = [[97, 98, 99]]"
    by (simp add: splitlines_def is_linebreak_def)
  have c: "\<exists>st'. classify demo_env [97, 98, 99] st = Inr st' \<and> cnt st' = cnt st
       \<and> valid_passwords st' = valid_passwords st
       \<and> total_valid_passwords st' = total_valid_passwords st" for st
    by (simp add: classify_def Let_def categorize_def)
  show ?thesis
    unfolding ustr_vals main_def
    using c [of "initial\<lparr>progress := Suc 0, valid_passwords := Suc 0\<rparr>"]
    by (auto simp: process_file_def file_loop_def s loop_body_def re_match_line_re [OF l] n r
        initial_def)
qed

text \<open>
  Claim C1, amended.  After a completed run every valid password has been counted in
  \<open>cnt_length\<close>.  With the categorization on and a dictionary that has a word, the sum of
  all category counts (\<open>no_category\<close> included) is at least the number of valid passwords
  whose decoded length exceeds 3: each such password adds one count to every category it
  resolves to, or one to \<open>no_category\<close> when it resolves to none, so that the category
  counter is exactly the sum of these labels over the counted passwords.  A password of
  decoded length 3 or less adds to no category counter.  With the categorization off or
  no word in the dictionary no category is counted.
\<close>

theorem C1_category_sum:
  assumes "main e input_files = Inr st"
  shows "size (cnt_length st) = total_valid_passwords st
     \<and> (\<not> no_categories e \<and> words e \<noteq> []
          \<longrightarrow> size (filter_mset (\<lambda>n. 3 < n) (cnt_length st)) \<le> size (cnt st))
     \<and> (no_categories e \<or> words e = [] \<longrightarrow> cnt st = {#})
     \<and> (\<forall>p s s'. classify e p s = Inr s' \<and> length p \<le> 3 \<longrightarrow> cnt s' = cnt s)
     \<and> cnt st = sum_mset (image_mset (category_contribution e) (cnt_pwd st))
     \<and> (\<forall>p s s'. classify e p s = Inr s' \<longrightarrow> cnt s' = cnt s + category_contribution e p)"
proof -
  have "cnt s' = cnt s" if "classify e p s = Inr s'" "length p \<le> 3" for p s s'
    using classify_cnt [OF that(1)] that(2) by (auto split: if_splits)
  moreover have "cnt st = sum_mset (image_mset (category_contribution e) (cnt_pwd st))"
    using main_categories_exact [OF assms] by (simp add: categories_exact_def)
  moreover have "cnt s' = cnt s + category_contribution e p"
    if "classify e p s = Inr s'" for p s s'
    using that by (rule classify_categories)
  ultimately show ?thesis
    using main_invariant [OF assms]
    by (auto simp: run_invariant_def long_counted_def split: if_splits)
qed

theorem C1_category_sum_witness:
  "\<exists>st. main demo_env [ustr ''jaguar''] = Inr st
       \<and> total_valid_passwords st = 1 \<and> size (cnt st) = 2
       \<and> size (cnt_length st) = total_valid_passwords st
       \<and> size (filter_mset (\<lambda>n. 3 < n) (cnt_length st)) \<le> size (cnt st)
       \<and> cnt st = {#ustr ''animals'', ustr ''cars''#}"
proof -
  have l: "10 \<notin> set [106, 97, 103, 117, 97, 114 :: nat]" by simp
  have n: "spec_strip_prefix (spec_strip_prefix [106, 97, 103, 117, 97, 114])
           = [106, 97, 103, 117, 97, 114]"
    by (simp add: spec_strip_prefix_def)
  have r: "recover [106, 97, 103, 117, 97, 114] = Inr [106, 97, 103, 117, 97, 114]"
    by (simp add: recover_def is_hex_wrapped_def startswith_def ustr_def)
  have s: "splitlines [106, 97, 103, 117, 97, 114] = [[106, 97, 103, 117, 97, 114]]"
    by (simp add: splitlines_def is_linebreak_def)
  have w: "words demo_env = [[116, 105, 103, 101, 114], [106, 97, 103, 117, 97, 114]]"
    by (simp add: words_def demo_env_def ustr_def)
  have a: "\<not> no_categories demo_env \<and> words demo_env \<noteq> []"
    unfolding w by (simp add: demo_env_def)
  have x: "process_extract demo_env [106, 97, 103, 117, 97, 114] (words demo_env)
           = [([116, 105, 103, 101, 114], 0), ([106, 97, 103, 117, 97, 114], 100)]"
    unfolding w by (simp add: demo_env_def exact_extract_def)
  have k: "word2category demo_env [106, 97, 103, 117, 97, 114]
           = Some [ustr ''animals'', ustr ''cars'']"
    by (simp add: word2category_def w) (simp add: demo_env_def ustr_def)
  have d: "ustr ''animals'' \<noteq> ustr ''cars''" by (simp add: ustr_def)
  have c: "\<exists>st'. classify demo_env [106, 97, 103, 117, 97, 114] st = Inr st'
       \<and> size (cnt st') = Suc (Suc (size (cnt st)))
       \<and> cnt_pwd st' = add_mset [106, 97, 103, 117, 97, 114] (cnt_pwd st)
       \<and> valid_passwords st' = valid_passwords st
       \<and> total_valid_passwords st' = total_valid_passwords st" for st
    using a d by (simp add: classify_def Let_def categorize_def x k set_update_def)
  have "\<exists>st. main demo_env [ustr ''jaguar''] = Inr st
       \<and> total_valid_passwords st = 1 \<and> size (cnt st) = 2
       \<and> cnt_pwd st = {#[106, 97, 103, 117, 97, 114]#}"
    unfolding ustr_vals main_def
    using c [of "initial\<lparr>progress := Suc 0, valid_passwords := Suc 0\<rparr>"]
    by (auto simp: process_file_def file_loop_def s loop_body_def re_match_line_re [OF l] n r
        initial_def)
  then obtain st where 1: "main demo_env [ustr ''jaguar''] = Inr st"
    and 2: "total_valid_passwords st = 1" and 3: "size (cnt st) = 2"
    and 4: "cnt_pwd st = {#[106, 97, 103, 117, 97, 114]#}" by blast
  have lab: "category_contribution demo_env [106, 97, 103, 117, 97, 114]
             = {#ustr ''animals'', ustr ''cars''#}"
    using a d
    by (simp add: category_contribution_def password_labels_def retained_categories_def x k)
  from C1_category_sum [OF 1]
  have "cnt st = sum_mset (image_mset (category_contribution demo_env) (cnt_pwd st))"
    and "size (cnt_length st) = total_valid_passwords st"
    and "\<not> no_categories demo_env \<and> words demo_env \<noteq> []
          \<longrightarrow> size (filter_mset (\<lambda>n. 3 < n) (cnt_length st)) \<le> size (cnt st)"
    by blast+
  with a 1 2 3 show ?thesis unfolding 4 by (simp add: lab)
qed

text \<open>
  Claim C9.  A line whose normalized password is empty only advances the progress
  counter: the number of valid passwords and all ten counters stay as they are.  Such a
  line in a file changes the outcome of the file by nothing but the total of lines read,
  which is one more than without the line (and the progress counter with it).
\<close>

theorem C9_empty_line:
  assumes "re_match (isdecimal e) line_re l = Some (Some [])"
  shows "loop_body e st l = Inr (st\<lparr>progress := Suc (progress st)\<rparr>)
     \<and> file_loop e st (xs @ l # ys)
       = map_sum id (\<lambda>s. s\<lparr>grand_total := Suc (grand_total s), progress := Suc (progress s)\<rparr>)
           (file_loop e st (xs @ ys))"
  using loop_body_empty [OF assms] file_loop_skip [OF assms] by blast

theorem C9_empty_line_witness:
  "loop_body demo_env initial (ustr ''user:'') = Inr (initial\<lparr>progress := Suc (progress initial)\<rparr>)
   \<and> map_sum id grand_total (file_loop demo_env initial [ustr ''abc'', ustr ''user:'']) = Inr 2
   \<and> map_sum id total_valid_passwords (file_loop demo_env initial [ustr ''abc'', ustr ''user:''])
     = Inr 1
   \<and> map_sum id cnt_length (file_loop demo_env initial [ustr ''abc'', ustr ''user:''])
     = Inr {#3#}"
proof -
  have u: "ustr ''user:'' = [117, 115, 101, 114, 58]" by (simp add: ustr_def)
  have lu: "10 \<notin> set [117, 115, 101, 114, 58 :: nat]" by simp
  have h: "re_match (isdecimal demo_env) line_re (ustr ''user:'') = Some (Some [])"
    unfolding u by (simp add: re_match_line_re [OF lu] spec_strip_prefix_def)
  have l: "10 \<notin> set [97, 98, 99 :: nat]" by simp
  have n: "spec_strip_prefix (spec_strip_prefix [97, 98, 99]) = [97, 98, 99]"
    by (simp add: spec_strip_prefix_def)
  have r: "recover [97, 98, 99] = Inr [97, 98, 99]"
    by (simp add: recover_def is_hex_wrapped_def startswith_def ustr_def)
  have c: "\<exists>st'. classify demo_env [97, 98, 99] st = Inr st'
       \<and> cnt_length st' = add_mset 3 (cnt_length st)
       \<and> valid_passwords st' = valid_passwords st
       \<and> grand_total st' = grand_total st
       \<and> total_valid_passwords st' = total_valid_passwords st" for st
    by (simp add: classify_def Let_def categorize_def)
  have "\<exists>s1. file_loop demo_env initial [ustr ''abc''] = Inr s1
       \<and> grand_total s1 = 1 \<and> total_valid_passwords s1 = 1 \<and> cnt_length s1 = {#3#}"
    unfolding ustr_vals
    using c [of "initial\<lparr>progress := Suc 0, valid_passwords := Suc 0\<rparr>"]
    by (auto simp: file_loop_def loop_body_def re_match_line_re [OF l] n r initial_def)
  then obtain s1 where 1: "file_loop demo_env initial [ustr ''abc''] = Inr s1"
    and 2: "grand_total s1 = 1" "total_valid_passwords s1 = 1" "cnt_length s1 = {#3#}"
    by blast
  from C9_empty_line [OF h, of initial "[ustr ''abc'']" "[]"] 1 2
  show ?thesis by simp
qed

end
